theory Spec2Isabelle
  imports Complex_Main
begin

unbundle bit_operations_syntax

section \<open>The arbitrary-precision reals consumed by \<open>sqr.c\<close>\<close>

text \<open>
  Modelled from the spec: \<open>sqr.c\<close> manipulates its numbers only through the interface of the
  real-arithmetic package (section 6 of the specification), which is not part of the source
  file.  Its data and the primitives that \<open>sqr.c\<close> calls are modelled in this section; every
  primitive is the exact mathematical operation followed by one rounding to the precision of
  the destination, with the overflow and underflow rules of the package.

  A finite nonzero number is \<open>(-1)^s * m * 2^e\<close> with \<open>m\<close> odd, so that equal numbers
  have equal representations.
\<close>

datatype mpfr_rnd_t = MPFR_RNDN | MPFR_RNDZ | MPFR_RNDU | MPFR_RNDD | MPFR_RNDA

datatype mpfr_num =
    NaN
  | Inf bool
  | Zero bool
  | Fin bool nat int

record mpfr_t =
  mprec :: nat
  mval :: mpfr_num

record mpc_t =
  re :: mpfr_t
  im :: mpfr_t

text \<open>The exponent range is global state of the arithmetic package, read by the code with
  \<open>mpfr_get_emin\<close> and \<open>mpfr_get_emax\<close>.\<close>

record env =
  emin :: int
  emax :: int

text \<open>The widest range that \<open>mpfr_set_emin\<close> and \<open>mpfr_set_emax\<close> accept on a 64-bit
  machine.  The package starts with the narrower range \<open>emin = 1 - 2^30\<close>,
  \<open>emax = 2^30 - 1\<close>.\<close>

definition widest_env :: env where
  "widest_env = \<lparr> emin = 1 - 2 ^ 62, emax = 2 ^ 62 - 1 \<rparr>"

subsection \<open>Mantissas\<close>

fun bitlen :: "nat \<Rightarrow> nat" where
  "bitlen n = (if n = 0 then 0 else Suc (bitlen (n div 2)))"

declare bitlen.simps [simp del]

function oddify :: "nat \<Rightarrow> int \<Rightarrow> nat \<times> int" where
  "oddify m e = (if m = 0 \<or> odd m then (m, e) else oddify (m div 2) (e + 1))"
  by pat_completeness auto
termination
  by (relation "measure (\<lambda>(m, e). m)") auto

declare oddify.simps [simp del]

definition mk_fin :: "bool \<Rightarrow> nat \<Rightarrow> int \<Rightarrow> mpfr_num" where
  "mk_fin s m e = (case oddify m e of (m', e') \<Rightarrow> Fin s m' e')"

subsection \<open>Classification\<close>

fun mpfr_nan_p :: "mpfr_num \<Rightarrow> bool" where
  "mpfr_nan_p NaN = True"
| "mpfr_nan_p _ = False"

fun mpfr_inf_p :: "mpfr_num \<Rightarrow> bool" where
  "mpfr_inf_p (Inf s) = True"
| "mpfr_inf_p _ = False"

fun mpfr_zero_p :: "mpfr_num \<Rightarrow> bool" where
  "mpfr_zero_p (Zero s) = True"
| "mpfr_zero_p _ = False"

fun mpfr_number_p :: "mpfr_num \<Rightarrow> bool" where
  "mpfr_number_p NaN = False"
| "mpfr_number_p (Inf s) = False"
| "mpfr_number_p _ = True"

text \<open>The sign bit; the sign of a NaN is taken as positive.\<close>

fun mpfr_signbit :: "mpfr_num \<Rightarrow> bool" where
  "mpfr_signbit NaN = False"
| "mpfr_signbit (Inf s) = s"
| "mpfr_signbit (Zero s) = s"
| "mpfr_signbit (Fin s m e) = s"

definition MPFR_SIGN :: "mpfr_num \<Rightarrow> int" where
  "MPFR_SIGN x = (if mpfr_signbit x then - 1 else 1)"

text \<open>\<open>mpfr_sgn\<close> is 0 for a zero and for a NaN.\<close>

fun mpfr_sgn :: "mpfr_num \<Rightarrow> int" where
  "mpfr_sgn NaN = 0"
| "mpfr_sgn (Zero s) = 0"
| "mpfr_sgn (Inf s) = (if s then - 1 else 1)"
| "mpfr_sgn (Fin s m e) = (if s then - 1 else 1)"

text \<open>The exponent \<open>E\<close> of a finite nonzero number: its magnitude lies in
  \<open>[2^(E-1), 2^E)\<close>.  For the singular values the field holds a reserved value below every
  admissible \<open>emin\<close> (\<open>MPFR_EXP_ZERO\<close>, \<open>MPFR_EXP_NAN\<close>, \<open>MPFR_EXP_INF\<close> on a 64-bit
  machine).\<close>

fun mpfr_get_exp :: "mpfr_num \<Rightarrow> int" where
  "mpfr_get_exp (Fin s m e) = e + int (bitlen m)"
| "mpfr_get_exp (Zero s) = - (2 ^ 63) + 1"
| "mpfr_get_exp NaN = - (2 ^ 63) + 2"
| "mpfr_get_exp (Inf s) = - (2 ^ 63) + 3"

subsection \<open>Rounding\<close>

text \<open>Whether the magnitude \<open>q + r / 2^k\<close> (with \<open>r < 2^k\<close>) of a number of sign \<open>s\<close> is
  rounded to \<open>q + 1\<close> rather than to \<open>q\<close>.\<close>

fun round_incr :: "mpfr_rnd_t \<Rightarrow> bool \<Rightarrow> nat \<Rightarrow> nat \<Rightarrow> nat \<Rightarrow> bool" where
  "round_incr MPFR_RNDZ s q r k = False"
| "round_incr MPFR_RNDA s q r k = (r \<noteq> 0)"
| "round_incr MPFR_RNDU s q r k = (\<not> s \<and> r \<noteq> 0)"
| "round_incr MPFR_RNDD s q r k = (s \<and> r \<noteq> 0)"
| "round_incr MPFR_RNDN s q r k = (2 * r > 2 ^ k \<or> (2 * r = 2 ^ k \<and> odd q))"

text \<open>Whether a rounding mode rounds a number of sign \<open>s\<close> away from zero when its exponent
  leaves the range.\<close>

fun rnd_away :: "mpfr_rnd_t \<Rightarrow> bool \<Rightarrow> bool" where
  "rnd_away MPFR_RNDZ s = False"
| "rnd_away MPFR_RNDA s = True"
| "rnd_away MPFR_RNDU s = (\<not> s)"
| "rnd_away MPFR_RNDD s = s"
| "rnd_away MPFR_RNDN s = True"

text \<open>The ternary value of a result that was moved away from zero (\<open>True\<close>) or towards
  zero (\<open>False\<close>).\<close>

definition ternary :: "bool \<Rightarrow> bool \<Rightarrow> int" where
  "ternary s away = (if s = away then - 1 else 1)"

text \<open>The largest number of precision \<open>p\<close>: \<open>(2^p - 1) * 2^(emax - p)\<close>.\<close>

definition mpfr_setmax :: "env \<Rightarrow> nat \<Rightarrow> bool \<Rightarrow> mpfr_num" where
  "mpfr_setmax E p s = Fin s (2 ^ p - 1) (emax E - int p)"

text \<open>The smallest positive number: \<open>2^(emin - 1)\<close>.\<close>

definition mpfr_setmin :: "env \<Rightarrow> bool \<Rightarrow> mpfr_num" where
  "mpfr_setmin E s = Fin s 1 (emin E - 1)"

text \<open>\<open>mpfr_overflow\<close>: infinity or the largest number, with the ternary value.\<close>

definition mpfr_overflow :: "env \<Rightarrow> nat \<Rightarrow> mpfr_rnd_t \<Rightarrow> bool \<Rightarrow> mpfr_num \<times> int" where
  "mpfr_overflow E p rnd s =
     (if rnd_away rnd s then (Inf s, ternary s True) else (mpfr_setmax E p s, ternary s False))"

text \<open>\<open>mpfr_underflow\<close>: zero or the smallest number, with the ternary value.\<close>

definition mpfr_underflow :: "env \<Rightarrow> mpfr_rnd_t \<Rightarrow> bool \<Rightarrow> mpfr_num \<times> int" where
  "mpfr_underflow E rnd s =
     (if rnd_away rnd s then (mpfr_setmin E s, ternary s True) else (Zero s, ternary s False))"

text \<open>The result of a rounding: the number, the ternary value and whether the underflow
  flag was raised.\<close>

type_synonym rounded = "mpfr_num \<times> int \<times> bool"

text \<open>On underflow, rounding to nearest gives zero when the exact magnitude \<open>m * 2^e\<close> is
  at most \<open>2^(emin-2)\<close>, half the smallest number, and the smallest number otherwise.\<close>

definition underflow_rnd :: "env \<Rightarrow> mpfr_rnd_t \<Rightarrow> nat \<Rightarrow> int \<Rightarrow> mpfr_rnd_t" where
  "underflow_rnd E rnd m e =
     (if rnd = MPFR_RNDN \<and>
         (e + int (bitlen m) < emin E - 1 \<or>
          (e + int (bitlen m) = emin E - 1 \<and> m = 2 ^ (bitlen m - 1)))
      then MPFR_RNDZ else rnd)"

text \<open>Rounding \<open>(-1)^s * m * 2^e\<close> (\<open>m > 0\<close>) to \<open>p\<close> bits.  The exponent is checked after
  rounding.\<close>

definition round_fin :: "env \<Rightarrow> nat \<Rightarrow> mpfr_rnd_t \<Rightarrow> bool \<Rightarrow> nat \<Rightarrow> int \<Rightarrow> rounded" where
  "round_fin E p rnd s m e =
     (let n = bitlen m;
          k = n - p;
          q = m div 2 ^ k;
          r = m mod 2 ^ k;
          up = round_incr rnd s q r k;
          m' = (if up then q + 1 else q);
          e' = e + int k;
          ex = e' + int (bitlen m')
      in if ex > emax E then
           (case mpfr_overflow E p rnd s of (z, t) \<Rightarrow> (z, t, False))
         else if ex < emin E then
           (case mpfr_underflow E (underflow_rnd E rnd m e) s of (z, t) \<Rightarrow> (z, t, True))
         else (mk_fin s m' e', (if r = 0 then 0 else ternary s up), False))"

text \<open>Rounding an exact result that may be singular: singular values are stored as they
  are, exactly.\<close>

fun round_num :: "env \<Rightarrow> nat \<Rightarrow> mpfr_rnd_t \<Rightarrow> mpfr_num \<Rightarrow> rounded" where
  "round_num E p rnd (Fin s m e) = round_fin E p rnd s m e"
| "round_num E p rnd x = (x, 0, False)"

subsection \<open>Arithmetic\<close>

fun mpfr_neg_num :: "mpfr_num \<Rightarrow> mpfr_num" where
  "mpfr_neg_num NaN = NaN"
| "mpfr_neg_num (Inf s) = Inf (\<not> s)"
| "mpfr_neg_num (Zero s) = Zero (\<not> s)"
| "mpfr_neg_num (Fin s m e) = Fin (\<not> s) m e"

definition smant :: "bool \<Rightarrow> nat \<Rightarrow> int" where
  "smant s m = (if s then - int m else int m)"

text \<open>The exact sum of two finite nonzero numbers, brought to the smaller exponent, then
  rounded.  An exact zero sum is \<open>+0\<close>, and \<open>-0\<close> when rounding downwards.\<close>

definition add_fin ::
  "env \<Rightarrow> nat \<Rightarrow> mpfr_rnd_t \<Rightarrow> bool \<Rightarrow> nat \<Rightarrow> int \<Rightarrow> bool \<Rightarrow> nat \<Rightarrow> int \<Rightarrow> rounded" where
  "add_fin E p rnd s1 m1 e1 s2 m2 e2 =
     (let e0 = min e1 e2;
          c = smant s1 m1 * 2 ^ nat (e1 - e0) + smant s2 m2 * 2 ^ nat (e2 - e0)
      in if c = 0 then (Zero (rnd = MPFR_RNDD), 0, False)
         else round_fin E p rnd (c < 0) (nat \<bar>c\<bar>) e0)"

fun mpfr_add :: "env \<Rightarrow> nat \<Rightarrow> mpfr_num \<Rightarrow> mpfr_num \<Rightarrow> mpfr_rnd_t \<Rightarrow> rounded" where
  "mpfr_add E p NaN y rnd = (NaN, 0, False)"
| "mpfr_add E p x NaN rnd = (NaN, 0, False)"
| "mpfr_add E p (Inf s1) (Inf s2) rnd = (if s1 = s2 then (Inf s1, 0, False) else (NaN, 0, False))"
| "mpfr_add E p (Inf s1) y rnd = (Inf s1, 0, False)"
| "mpfr_add E p x (Inf s2) rnd = (Inf s2, 0, False)"
| "mpfr_add E p (Zero s1) (Zero s2) rnd =
     (if s1 = s2 then (Zero s1, 0, False) else (Zero (rnd = MPFR_RNDD), 0, False))"
| "mpfr_add E p (Zero s1) (Fin s2 m2 e2) rnd = round_fin E p rnd s2 m2 e2"
| "mpfr_add E p (Fin s1 m1 e1) (Zero s2) rnd = round_fin E p rnd s1 m1 e1"
| "mpfr_add E p (Fin s1 m1 e1) (Fin s2 m2 e2) rnd = add_fin E p rnd s1 m1 e1 s2 m2 e2"

definition mpfr_sub :: "env \<Rightarrow> nat \<Rightarrow> mpfr_num \<Rightarrow> mpfr_num \<Rightarrow> mpfr_rnd_t \<Rightarrow> rounded" where
  "mpfr_sub E p x y rnd = mpfr_add E p x (mpfr_neg_num y) rnd"

fun mpfr_mul :: "env \<Rightarrow> nat \<Rightarrow> mpfr_num \<Rightarrow> mpfr_num \<Rightarrow> mpfr_rnd_t \<Rightarrow> rounded" where
  "mpfr_mul E p NaN y rnd = (NaN, 0, False)"
| "mpfr_mul E p x NaN rnd = (NaN, 0, False)"
| "mpfr_mul E p (Inf s1) (Zero s2) rnd = (NaN, 0, False)"
| "mpfr_mul E p (Zero s1) (Inf s2) rnd = (NaN, 0, False)"
| "mpfr_mul E p (Inf s1) y rnd = (Inf (s1 \<noteq> mpfr_signbit y), 0, False)"
| "mpfr_mul E p x (Inf s2) rnd = (Inf (mpfr_signbit x \<noteq> s2), 0, False)"
| "mpfr_mul E p (Zero s1) y rnd = (Zero (s1 \<noteq> mpfr_signbit y), 0, False)"
| "mpfr_mul E p x (Zero s2) rnd = (Zero (mpfr_signbit x \<noteq> s2), 0, False)"
| "mpfr_mul E p (Fin s1 m1 e1) (Fin s2 m2 e2) rnd =
     round_fin E p rnd (s1 \<noteq> s2) (m1 * m2) (e1 + e2)"

definition mpfr_sqr :: "env \<Rightarrow> nat \<Rightarrow> mpfr_num \<Rightarrow> mpfr_rnd_t \<Rightarrow> rounded" where
  "mpfr_sqr E p x rnd = mpfr_mul E p x x rnd"

definition mpfr_set :: "env \<Rightarrow> nat \<Rightarrow> mpfr_num \<Rightarrow> mpfr_rnd_t \<Rightarrow> rounded" where
  "mpfr_set E p x rnd = round_num E p rnd x"

definition mpfr_neg :: "env \<Rightarrow> nat \<Rightarrow> mpfr_num \<Rightarrow> mpfr_rnd_t \<Rightarrow> rounded" where
  "mpfr_neg E p x rnd = round_num E p rnd (mpfr_neg_num x)"

definition mpfr_set_si :: "env \<Rightarrow> nat \<Rightarrow> int \<Rightarrow> mpfr_rnd_t \<Rightarrow> rounded" where
  "mpfr_set_si E p i rnd =
     (if i = 0 then (Zero False, 0, False) else round_fin E p rnd (i < 0) (nat \<bar>i\<bar>) 0)"

definition mpfr_set_ui :: "env \<Rightarrow> nat \<Rightarrow> nat \<Rightarrow> mpfr_rnd_t \<Rightarrow> rounded" where
  "mpfr_set_ui E p i rnd =
     (if i = 0 then (Zero False, 0, False) else round_fin E p rnd False i 0)"

definition mpfr_set_ui_2exp :: "env \<Rightarrow> nat \<Rightarrow> nat \<Rightarrow> int \<Rightarrow> mpfr_rnd_t \<Rightarrow> rounded" where
  "mpfr_set_ui_2exp E p i e rnd =
     (if i = 0 then (Zero False, 0, False) else round_fin E p rnd False i e)"

fun mpfr_mul_2ui :: "env \<Rightarrow> nat \<Rightarrow> mpfr_num \<Rightarrow> nat \<Rightarrow> mpfr_rnd_t \<Rightarrow> rounded" where
  "mpfr_mul_2ui E p (Fin s m e) n rnd = round_fin E p rnd s m (e + int n)"
| "mpfr_mul_2ui E p x n rnd = (x, 0, False)"

definition mpfr_mul_2exp :: "env \<Rightarrow> nat \<Rightarrow> mpfr_num \<Rightarrow> nat \<Rightarrow> mpfr_rnd_t \<Rightarrow> rounded" where
  "mpfr_mul_2exp E p x n rnd = mpfr_mul_2ui E p x n rnd"

fun mpfr_div_2ui :: "env \<Rightarrow> nat \<Rightarrow> mpfr_num \<Rightarrow> nat \<Rightarrow> mpfr_rnd_t \<Rightarrow> rounded" where
  "mpfr_div_2ui E p (Fin s m e) n rnd = round_fin E p rnd s m (e - int n)"
| "mpfr_div_2ui E p x n rnd = (x, 0, False)"

text \<open>\<open>mpfr_set_exp\<close> changes the exponent of a finite nonzero number when the new exponent is
  in the current range, and leaves the number alone otherwise.\<close>

fun mpfr_set_exp :: "env \<Rightarrow> mpfr_num \<Rightarrow> int \<Rightarrow> mpfr_num" where
  "mpfr_set_exp E (Fin s m e) ex =
     (if emin E \<le> ex \<and> ex \<le> emax E then Fin s m (ex - int (bitlen m)) else Fin s m e)"
| "mpfr_set_exp E x ex = x"

text \<open>The three components of a rounded result.\<close>

definition rnum :: "rounded \<Rightarrow> mpfr_num" where "rnum r = fst r"
definition rinex :: "rounded \<Rightarrow> int" where "rinex r = fst (snd r)"
definition runderflow :: "rounded \<Rightarrow> bool" where "runderflow r = snd (snd r)"

section \<open>The macros of \<open>mpc-impl.h\<close> and \<open>mpc.h\<close> used by \<open>sqr.c\<close>\<close>

text \<open>Modelled from the spec: the header that defines these macros is not part of the
  source file.  A rounding directive is a pair of rounding modes, one per component; an
  inexactness flag is a signed ternary per component, packed into one integer.\<close>

type_synonym mpc_rnd_t = "mpfr_rnd_t \<times> mpfr_rnd_t"

definition MPC_RND_RE :: "mpc_rnd_t \<Rightarrow> mpfr_rnd_t" where "MPC_RND_RE rnd = fst rnd"
definition MPC_RND_IM :: "mpc_rnd_t \<Rightarrow> mpfr_rnd_t" where "MPC_RND_IM rnd = snd rnd"

definition MPC_INEX_POS :: "int \<Rightarrow> int" where
  "MPC_INEX_POS inex = (if inex < 0 then 2 else if inex = 0 then 0 else 1)"

definition MPC_INEX :: "int \<Rightarrow> int \<Rightarrow> int" where
  "MPC_INEX inex_re inex_im = MPC_INEX_POS inex_re OR push_bit 2 (MPC_INEX_POS inex_im)"

fun INV_RND :: "mpfr_rnd_t \<Rightarrow> mpfr_rnd_t" where
  "INV_RND MPFR_RNDU = MPFR_RNDD"
| "INV_RND MPFR_RNDD = MPFR_RNDU"
| "INV_RND r = r"

definition MPC_PREC_RE :: "mpc_t \<Rightarrow> nat" where "MPC_PREC_RE z = mprec (re z)"
definition MPC_PREC_IM :: "mpc_t \<Rightarrow> nat" where "MPC_PREC_IM z = mprec (im z)"
definition MPC_MAX_PREC :: "mpc_t \<Rightarrow> nat" where
  "MPC_MAX_PREC z = max (MPC_PREC_RE z) (MPC_PREC_IM z)"

definition mpc_fin_p :: "mpc_t \<Rightarrow> bool" where
  "mpc_fin_p z = (mpfr_number_p (mval (re z)) \<and> mpfr_number_p (mval (im z)))"

text \<open>Modelled from the spec: \<open>mpc_ceil_log2\<close>, the least \<open>k\<close> with \<open>d \<le> 2^k\<close>.\<close>

fun mpc_ceil_log2 :: "nat \<Rightarrow> nat" where
  "mpc_ceil_log2 d = (if d \<le> 1 then 0 else Suc (mpc_ceil_log2 ((d + 1) div 2)))"

declare mpc_ceil_log2.simps [simp del]

section \<open>The fused product-sum \<open>mpfr_fmma\<close>\<close>

text \<open>C conversions between \<open>long\<close>, \<open>unsigned long\<close> (64 bits) and the unbounded
  integers \<open>mpz_t\<close>.\<close>

definition ulong :: "int \<Rightarrow> nat" where
  "ulong i = nat (i mod 2 ^ 64)"

definition slong :: "int \<Rightarrow> int" where
  "slong i = (i + 2 ^ 63) mod 2 ^ 64 - 2 ^ 63"

definition mpz_get_ui :: "int \<Rightarrow> nat" where
  "mpz_get_ui z = nat (\<bar>z\<bar> mod 2 ^ 64)"

definition mpz_get_si :: "int \<Rightarrow> int" where
  "mpz_get_si z = sgn z * (\<bar>z\<bar> mod 2 ^ 63)"

text \<open>Lines 65 to 162: the products are recomputed on operands whose exponents were set
  to 0, with the exponents kept in the unbounded integers \<open>eu\<close> and \<open>ev\<close>.  \<open>z\<close> is the
  tentative sum, \<open>p\<close> the precision of the destination.\<close>

definition fmma_rescue ::
  "env \<Rightarrow> nat \<Rightarrow> mpfr_num \<Rightarrow> mpfr_t \<Rightarrow> mpfr_t \<Rightarrow> mpfr_t \<Rightarrow> mpfr_t \<Rightarrow> int \<Rightarrow> mpfr_rnd_t
     \<Rightarrow> mpfr_num \<times> int" where
  "fmma_rescue E p z a b c d sign rnd =
     (let ea = mpfr_get_exp (mval a);
          eb = mpfr_get_exp (mval b);
          ec = mpfr_get_exp (mval c);
          ed = mpfr_get_exp (mval d);
          a0 = mpfr_set_exp E (mval a) 0;
          b0 = mpfr_set_exp E (mval b) 0;
          c0 = mpfr_set_exp E (mval c) 0;
          d0 = mpfr_set_exp E (mval d) 0;
          eu = ea + eb;
          ev = ec + ed;
          u1 = rnum (mpfr_mul E (mprec a + mprec b) a0 b0 MPFR_RNDN);
          eu1 = eu - int (ulong (- mpfr_get_exp u1));
          u2 = mpfr_set_exp E u1 0;
          v0 = rnum (mpfr_mul E (mprec c + mprec d) c0 d0 MPFR_RNDN);
          v1 = (if sign < 0 then rnum (mpfr_neg E (mprec c + mprec d) v0 MPFR_RNDN) else v0);
          ev1 = ev - int (ulong (- mpfr_get_exp v1));
          v2 = mpfr_set_exp E v1 0
      in if mpfr_nan_p z then
           (let (u3, v3, eu3) =
                  (if eu1 \<ge> ev1 then
                     (let eu2 = eu1 - int (ulong (emax E)); ev2 = ev1 - eu2
                      in (mpfr_set_exp E u2 (emax E),
                          mpfr_set_exp E v2 (slong (int (mpz_get_ui ev2))), eu2))
                   else
                     (let ev2 = ev1 - int (ulong (emax E)); eu2 = eu1 - ev2
                      in (mpfr_set_exp E u2 (slong (int (mpz_get_ui eu2))),
                          mpfr_set_exp E v2 (emax E), ev2)));
                r = mpfr_add E p u3 v3 rnd;
                r' = mpfr_mul_2ui E p (rnum r) (mpz_get_ui eu3) rnd
            in (rnum r', if rinex r' \<noteq> 0 then rinex r' else rinex r))
         else
           (let (u3, v3, eu3) =
                  (if eu1 \<le> ev1 then
                     (let eu2 = eu1 + int (ulong (- emin E)); ev2 = ev1 - eu2
                      in (mpfr_set_exp E u2 (emin E),
                          mpfr_set_exp E v2 (mpz_get_si ev2), eu2))
                   else
                     (let ev2 = ev1 + int (ulong (- emin E)); eu2 = eu1 - ev2
                      in (mpfr_set_exp E u2 (mpz_get_si eu2),
                          mpfr_set_exp E v2 (emin E), ev2)));
                r = mpfr_add E p u3 v3 rnd;
                r' = mpfr_div_2ui E p (rnum r) (mpz_get_ui (- eu3)) rnd
            in (rnum r', if rinex r' \<noteq> 0 then rinex r' else rinex r)))"

text \<open>\<open>mpfr_fmma (z, a, b, c, d, sign, rnd)\<close>: \<open>z = ab + cd\<close> if \<open>sign \<ge> 0\<close> and
  \<open>z = ab - cd\<close> otherwise; \<open>p\<close> is the precision of \<open>z\<close>, which is distinct from the
  operands.  The result is the number stored in \<open>z\<close> and the returned ternary value.\<close>

definition mpfr_fmma ::
  "env \<Rightarrow> nat \<Rightarrow> mpfr_t \<Rightarrow> mpfr_t \<Rightarrow> mpfr_t \<Rightarrow> mpfr_t \<Rightarrow> int \<Rightarrow> mpfr_rnd_t \<Rightarrow> mpfr_num \<times> int" where
  "mpfr_fmma E p a b c d sign rnd =
     (let u = rnum (mpfr_mul E (mprec a + mprec b) (mval a) (mval b) MPFR_RNDN);
          v0 = rnum (mpfr_mul E (mprec c + mprec d) (mval c) (mval d) MPFR_RNDN);
          v = (if sign < 0 then rnum (mpfr_neg E (mprec c + mprec d) v0 MPFR_RNDN) else v0);
          r = mpfr_add E p u v rnd;
          z = rnum r
      in if mpfr_inf_p z then
           (let z1 = rnum (mpfr_set_si E p (if mpfr_signbit z then - 1 else 1) MPFR_RNDN);
                r' = mpfr_mul_2ui E p z1 (ulong (emax E)) rnd
            in (rnum r', rinex r'))
         else if mpfr_inf_p u \<or> mpfr_inf_p v \<or> mpfr_zero_p u \<or> mpfr_zero_p v then
           fmma_rescue E p z a b c d sign rnd
         else (z, rinex r))"

section \<open>Complex squaring \<open>mpc_sqr\<close>\<close>

text \<open>\<open>MPC_ASSERT\<close> aborts the program when its condition fails.\<close>

datatype 'a outcome = Returns 'a | Aborts

text \<open>\<open>mpfr_can_round\<close> is taken as a parameter of the model: the code only needs its
  answer.\<close>

type_synonym can_round = "mpfr_num \<Rightarrow> int \<Rightarrow> mpfr_rnd_t \<Rightarrow> mpfr_rnd_t \<Rightarrow> nat \<Rightarrow> bool"

text \<open>What one pass through the body of the loop of lines 268 to 356 does: it leaves the
  loop with the real part and \<open>inex_re\<close> set (\<open>ok\<close> or \<open>break\<close>), it fails the assertion of
  line 297, or it asks for another pass.\<close>

datatype pass = Stop "mpfr_num \<times> int" | Fail | Again

text \<open>Lines 304 to 312 and 348 to 353: store \<open>u\<close> in the real part when \<open>ok\<close>.\<close>

definition store_if_ok :: "env \<Rightarrow> nat \<Rightarrow> mpfr_rnd_t \<Rightarrow> bool \<Rightarrow> mpfr_num \<Rightarrow> int \<Rightarrow> pass" where
  "store_if_ok E p_re rnd_re ok u inexact =
     (if ok then
        (let r = mpfr_set E p_re u rnd_re
         in Stop (rnum r, if rinex r = 0 then inexact else rinex r))
      else Again)"

text \<open>The body of the loop at the working precision \<open>prec\<close> (already increased), for the
  operand \<open>x + iy\<close>, the precision \<open>p_re\<close> of the real part of the result and its rounding
  mode \<open>rnd_re\<close>.  The macro \<open>ROUND_AWAY (f, rop)\<close> is \<open>f\<close> itself when the arithmetic
  package has the mode \<open>MPFR_RNDA\<close>, which is the case modelled here.\<close>

definition sqr_pass ::
  "env \<Rightarrow> can_round \<Rightarrow> nat \<Rightarrow> mpfr_rnd_t \<Rightarrow> mpfr_num \<Rightarrow> mpfr_num \<Rightarrow> nat \<Rightarrow> pass" where
  "sqr_pass E cr p_re rnd_re x y prec =
     (let ru = mpfr_add E prec x y MPFR_RNDA;
          rv = mpfr_sub E prec x y MPFR_RNDA;
          u = rnum ru;
          v = rnum rv;
          inexact = rinex ru OR rinex rv
      in if mpfr_sgn u = 0 \<or> mpfr_sgn v = 0 then
           Stop (rnum (mpfr_set_ui E p_re 0 MPFR_RNDN), 0)
         else if mpfr_sgn u * mpfr_sgn v > 0 then
           (let rm = mpfr_mul E prec u v MPFR_RNDU;
                u' = rnum rm;
                inexact' = inexact OR rinex rm
            in if mpfr_get_exp u' = emin E then Fail
               else if mpfr_inf_p u' then
                 (let r = mpfr_set_ui_2exp E p_re 1 (emax E) rnd_re in Stop (rnum r, rinex r))
               else
                 store_if_ok E p_re rnd_re
                   (inexact' = 0 \<or> cr u' (int prec - 3) MPFR_RNDU MPFR_RNDZ
                       (p_re + (if rnd_re = MPFR_RNDN then 1 else 0)))
                   u' inexact')
         else
           (let rm = mpfr_mul E prec u v MPFR_RNDD;
                u' = rnum rm;
                inexact' = inexact OR rinex rm
            in if mpfr_inf_p u' then
                 (let u1 = rnum (mpfr_set_si E prec (- 1) MPFR_RNDN);
                      u2 = rnum (mpfr_mul_2ui E prec u1 (ulong (emax E)) rnd_re)
                  in store_if_ok E p_re rnd_re True u2 inexact')
               else if mpfr_get_exp u' = emin E then
                 (if rnd_re = MPFR_RNDZ \<or> rnd_re = MPFR_RNDN \<or> rnd_re = MPFR_RNDU then
                    Stop (rnum (mpfr_set_ui E p_re 0 rnd_re), 1)
                  else Stop (rnum (mpfr_set E p_re u' rnd_re), - 1))
               else
                 store_if_ok E p_re rnd_re
                   (inexact' = 0 \<or> cr u' (int prec - 3) MPFR_RNDD MPFR_RNDZ
                       (p_re + (if rnd_re = MPFR_RNDN then 1 else 0)))
                   u' inexact'))"

text \<open>The \<open>do ... while (!ok)\<close> loop; \<open>prec\<close> is the working precision before the pass.\<close>

partial_function (option) sqr_loop ::
  "env \<Rightarrow> can_round \<Rightarrow> nat \<Rightarrow> mpfr_rnd_t \<Rightarrow> mpfr_num \<Rightarrow> mpfr_num \<Rightarrow> nat
     \<Rightarrow> (mpfr_num \<times> int) outcome option" where
  "sqr_loop E cr p_re rnd_re x y prec =
     (case sqr_pass E cr p_re rnd_re x y (prec + mpc_ceil_log2 prec + 5) of
        Again \<Rightarrow> sqr_loop E cr p_re rnd_re x y (prec + mpc_ceil_log2 prec + 5)
      | Stop r \<Rightarrow> Some (Returns r)
      | Fail \<Rightarrow> Some Aborts)"

declare sqr_loop.simps [code]

subsection \<open>Memory\<close>

text \<open>\<open>rop\<close> and \<open>op\<close> are pointers and may be equal, so the complex numbers live in a
  store indexed by addresses.  A store to a component keeps its precision.\<close>

type_synonym heap = "nat \<Rightarrow> mpc_t"

definition ld_re :: "heap \<Rightarrow> nat \<Rightarrow> mpfr_num" where
  "ld_re h a = mval (re (h a))"

definition ld_im :: "heap \<Rightarrow> nat \<Rightarrow> mpfr_num" where
  "ld_im h a = mval (im (h a))"

definition st_re :: "heap \<Rightarrow> nat \<Rightarrow> mpfr_num \<Rightarrow> heap" where
  "st_re h a v = h(a := (h a)\<lparr>re := (re (h a))\<lparr>mval := v\<rparr>\<rparr>)"

definition st_im :: "heap \<Rightarrow> nat \<Rightarrow> mpfr_num \<Rightarrow> heap" where
  "st_im h a v = h(a := (h a)\<lparr>im := (im (h a))\<lparr>mval := v\<rparr>\<rparr>)"

text \<open>Modelled from the spec: \<open>mpc_conj (a, b, MPC_RNDNN)\<close> copies the real part and
  negates the imaginary part.\<close>

definition mpc_conj :: "env \<Rightarrow> heap \<Rightarrow> nat \<Rightarrow> nat \<Rightarrow> heap" where
  "mpc_conj E h a b =
     (let h1 = st_re h a (rnum (mpfr_set E (MPC_PREC_RE (h a)) (ld_re h b) MPFR_RNDN))
      in st_im h1 a (rnum (mpfr_neg E (MPC_PREC_IM (h1 a)) (ld_im h1 b) MPFR_RNDN)))"

subsection \<open>The stages of \<open>mpc_sqr\<close>\<close>

text \<open>Lines 185 to 214: NaN and infinities.\<close>

definition sqr_special :: "heap \<Rightarrow> nat \<Rightarrow> nat \<Rightarrow> heap" where
  "sqr_special h rop op =
     (if mpfr_nan_p (ld_re h op) \<or> mpfr_nan_p (ld_im h op) then
        (let h1 = st_re h rop NaN in st_im h1 rop NaN)
      else if mpfr_inf_p (ld_re h op) then
        (if mpfr_inf_p (ld_im h op) then
           (let h1 = st_im h rop (Inf (MPFR_SIGN (ld_re h op) * MPFR_SIGN (ld_im h op) < 0))
            in st_re h1 rop NaN)
         else
           (let h1 = (if mpfr_zero_p (ld_im h op) then st_im h rop NaN
                      else st_im h rop
                             (Inf (MPFR_SIGN (ld_re h op) * MPFR_SIGN (ld_im h op) < 0)))
            in st_re h1 rop (Inf False)))
      else
        (let h1 = (if mpfr_zero_p (ld_re h op) then st_im h rop NaN
                   else st_im h rop
                          (Inf (MPFR_SIGN (ld_re h op) * MPFR_SIGN (ld_im h op) < 0)))
         in st_re h1 rop (Inf True)))"

text \<open>Lines 219 to 226: the imaginary part of the operand is zero.\<close>

definition sqr_real_axis :: "env \<Rightarrow> heap \<Rightarrow> nat \<Rightarrow> nat \<Rightarrow> mpc_rnd_t \<Rightarrow> heap \<times> int" where
  "sqr_real_axis E h rop op rnd =
     (let same_sign = (mpfr_signbit (ld_re h op) = mpfr_signbit (ld_im h op));
          r = mpfr_sqr E (MPC_PREC_RE (h rop)) (ld_re h op) (MPC_RND_RE rnd);
          h1 = st_re h rop (rnum r);
          r' = mpfr_set_ui E (MPC_PREC_IM (h1 rop)) 0 MPFR_RNDN;
          h2 = st_im h1 rop (rnum r');
          h3 = (if \<not> same_sign then mpc_conj E h2 rop rop else h2)
      in (h3, MPC_INEX (rinex r) (rinex r')))"

text \<open>Lines 227 to 235: the real part of the operand is zero.\<close>

definition sqr_imag_axis :: "env \<Rightarrow> heap \<Rightarrow> nat \<Rightarrow> nat \<Rightarrow> mpc_rnd_t \<Rightarrow> heap \<times> int" where
  "sqr_imag_axis E h rop op rnd =
     (let same_sign = (mpfr_signbit (ld_re h op) = mpfr_signbit (ld_im h op));
          r = mpfr_sqr E (MPC_PREC_RE (h rop)) (ld_im h op) (INV_RND (MPC_RND_RE rnd));
          h1 = st_re h rop (rnum r);
          h2 = st_re h1 rop (rnum (mpfr_neg E (MPC_PREC_RE (h1 rop)) (ld_re h1 rop) MPFR_RNDN));
          r' = mpfr_set_ui E (MPC_PREC_IM (h2 rop)) 0 MPFR_RNDN;
          h3 = st_im h2 rop (rnum r');
          h4 = (if \<not> same_sign then mpc_conj E h3 rop rop else h3)
      in (h4, MPC_INEX (- rinex r) (rinex r')))"

text \<open>Lines 247 to 249: \<open>SAFE_ABS\<close> of the difference of the exponents against half the
  larger precision of the operand.\<close>

definition skewed :: "mpc_t \<Rightarrow> bool" where
  "skewed z =
     (\<bar>mpfr_get_exp (mval (re z)) - mpfr_get_exp (mval (im z))\<bar> > int (MPC_MAX_PREC z) div 2)"

text \<open>Lines 247 to 360: the real part, computed from the copy \<open>x\<close> of the real part of the
  operand and from its imaginary part read through \<open>op\<close>; the result is stored through
  \<open>rop\<close>.  \<open>prec\<close> is \<open>MPC_MAX_PREC (rop)\<close>, taken at line 216.\<close>

definition sqr_re ::
  "env \<Rightarrow> can_round \<Rightarrow> heap \<Rightarrow> nat \<Rightarrow> nat \<Rightarrow> mpfr_t \<Rightarrow> nat \<Rightarrow> mpc_rnd_t
     \<Rightarrow> (heap \<times> int) outcome option" where
  "sqr_re E cr h rop op x prec rnd =
     (if skewed (h op) then
        (case mpfr_fmma E (MPC_PREC_RE (h rop)) x x (im (h op)) (im (h op)) (- 1) (MPC_RND_RE rnd)
         of (z, inex_re) \<Rightarrow> Some (Returns (st_re h rop z, inex_re)))
      else
        (case sqr_loop E cr (MPC_PREC_RE (h rop)) (MPC_RND_RE rnd) (mval x) (ld_im h op) prec of
           None \<Rightarrow> None
         | Some Aborts \<Rightarrow> Some Aborts
         | Some (Returns (z, inex_re)) \<Rightarrow> Some (Returns (st_re h rop z, inex_re))))"

text \<open>Lines 362 to 370: the imaginary part \<open>2xy\<close>; the doubling is skipped when the
  multiplication raised the underflow flag.\<close>

definition sqr_im :: "env \<Rightarrow> heap \<Rightarrow> nat \<Rightarrow> nat \<Rightarrow> mpfr_t \<Rightarrow> mpc_rnd_t \<Rightarrow> heap \<times> int" where
  "sqr_im E h rop op x rnd =
     (let r = mpfr_mul E (MPC_PREC_IM (h rop)) (mval x) (ld_im h op) (MPC_RND_IM rnd);
          h1 = st_im h rop (rnum r)
      in if \<not> runderflow r then
           (let r' = mpfr_mul_2exp E (MPC_PREC_IM (h1 rop)) (ld_im h1 rop) 1 (MPC_RND_IM rnd)
            in (st_im h1 rop (rnum r'), rinex r OR rinex r'))
         else (h1, rinex r))"

text \<open>\<open>mpc_sqr (rop, op, rnd)\<close>.  The result is \<open>None\<close> if the loop does not end, and
  otherwise the final store with the returned pair of inexactness flags, or the abort of
  a failed assertion.  The copy \<open>x\<close> of lines 237 to 243 holds the real part of the operand
  in both cases of the test \<open>rop == op\<close>.\<close>

definition mpc_sqr ::
  "env \<Rightarrow> can_round \<Rightarrow> heap \<Rightarrow> nat \<Rightarrow> nat \<Rightarrow> mpc_rnd_t \<Rightarrow> (heap \<times> int) outcome option" where
  "mpc_sqr E cr h rop op rnd =
     (if \<not> mpc_fin_p (h op) then Some (Returns (sqr_special h rop op, MPC_INEX 0 0))
      else if mpfr_zero_p (ld_im h op) then Some (Returns (sqr_real_axis E h rop op rnd))
      else if mpfr_zero_p (ld_re h op) then Some (Returns (sqr_imag_axis E h rop op rnd))
      else
        (let x = re (h op)
         in case sqr_re E cr h rop op x (MPC_MAX_PREC (h rop)) rnd of
              None \<Rightarrow> None
            | Some Aborts \<Rightarrow> Some Aborts
            | Some (Returns (h1, inex_re)) \<Rightarrow>
                (case sqr_im E h1 rop op x rnd of
                   (h2, inex_im) \<Rightarrow> Some (Returns (h2, MPC_INEX inex_re inex_im)))))"

section \<open>Notions used in the statements\<close>

text \<open>A number that a variable of precision \<open>p\<close> can hold in the exponent range.\<close>

definition representable :: "env \<Rightarrow> nat \<Rightarrow> mpfr_num \<Rightarrow> bool" where
  "representable E p x =
     (case x of
        Fin s m e \<Rightarrow> odd m \<and> bitlen m \<le> p \<and> emin E \<le> e + int (bitlen m) \<and> e + int (bitlen m) \<le> emax E
      | _ \<Rightarrow> True)"

text \<open>A variable that holds a number fitting its precision, and a complex number made of two
  such variables.\<close>

definition mpfr_ok :: "env \<Rightarrow> mpfr_t \<Rightarrow> bool" where
  "mpfr_ok E v = (0 < mprec v \<and> representable E (mprec v) (mval v))"

definition mpc_ok :: "env \<Rightarrow> mpc_t \<Rightarrow> bool" where
  "mpc_ok E z = (mpfr_ok E (re z) \<and> mpfr_ok E (im z))"

text \<open>Complex numbers and stores for the examples: \<open>mpc_init p x y\<close> is \<open>x + iy\<close> with both
  precisions \<open>p\<close>; \<open>store2 r z\<close> holds \<open>r\<close> at address 0 and \<open>z\<close> everywhere else.\<close>

definition mpc_init :: "nat \<Rightarrow> mpfr_num \<Rightarrow> mpfr_num \<Rightarrow> mpc_t" where
  "mpc_init p x y = \<lparr> re = \<lparr> mprec = p, mval = x \<rparr>, im = \<lparr> mprec = p, mval = y \<rparr> \<rparr>"

definition store2 :: "mpc_t \<Rightarrow> mpc_t \<Rightarrow> heap" where
  "store2 r z = (\<lambda>a. if a = 0 then r else z)"

text \<open>A \<open>mpfr_can_round\<close> that never answers yes, for the examples that do not reach it.\<close>

definition never_round :: can_round where
  "never_round b err rnd1 rnd2 p = False"

text \<open>What a call left at the address \<open>a\<close>, with the returned flags.\<close>

definition result_at :: "nat \<Rightarrow> (heap \<times> int) outcome option \<Rightarrow> (mpc_t \<times> int) outcome option" where
  "result_at a r = map_option (map_outcome (\<lambda>(h, i). (h a, i))) r"

text \<open>Example stores, with an output of precision 53 at address 0 and the operand at
  address 1: the operand \<open>3 + 2i\<close>, and the operand \<open>x + ix\<close> with \<open>x = 2^(2^61 - 1)\<close>, whose
  product \<open>x * x = 2^(emax - 1)\<close> is the largest power of two in the widest range.\<close>

definition store_3_2i :: heap where
  "store_3_2i = store2 (mpc_init 53 (Zero False) (Zero False))
                  (mpc_init 53 (Fin False 3 0) (Fin False 1 1))"


text \<open>Operands at the ends of the widest exponent range, where \<open>emin = 1 - 2^62\<close>:
  \<open>3 * 2^j + i * 2^(j+1)\<close> and \<open>2^(j+1) + i * 3 * 2^j\<close> with \<open>j = - 2^61 - 1\<close>, for which
  \<open>x^2 - y^2 = \<plusminus> 5 * 2^(2j)\<close> has the exponent \<open>2j + 3 = emin\<close>; and
  \<open>2^(emax-1) + i * 3 * 2^(emax-2)\<close>, for which \<open>x + y\<close> overflows.\<close>

definition store_emin_pos :: heap where
  "store_emin_pos = store2 (mpc_init 53 (Zero False) (Zero False))
      (mpc_init 53 (Fin False 3 (- (2 ^ 61) - 1)) (Fin False 1 (- (2 ^ 61))))"

definition store_emin_neg :: heap where
  "store_emin_neg = store2 (mpc_init 53 (Zero False) (Zero False))
      (mpc_init 53 (Fin False 1 (- (2 ^ 61))) (Fin False 3 (- (2 ^ 61) - 1)))"

definition store_ovf :: heap where
  "store_ovf = store2 (mpc_init 53 (Zero False) (Zero False))
      (mpc_init 53 (Fin False 1 (2 ^ 62 - 2)) (Fin False 3 (2 ^ 62 - 3)))"

text \<open>The store of the second example of a product with exponent \<open>emin\<close>:
  \<open>5 * 2^j + i * 3 * 2^j\<close> with \<open>j = - 2^61 - 2\<close>, where \<open>x^2 - y^2 = 2^(2j + 4)\<close>.\<close>

definition store_emin_pos2 :: heap where
  "store_emin_pos2 = store2 (mpc_init 53 (Zero False) (Zero False))
      (mpc_init 53 (Fin False 5 (- (2 ^ 61) - 2)) (Fin False 3 (- (2 ^ 61) - 2)))"

text \<open>An operand whose square underflows: \<open>3 * 2^(emin - 1) + i * 2^emin\<close> in the widest
  exponent range, where \<open>x^2 - y^2 = 5 * 2^(2 emin - 2)\<close> is positive and far below the
  smallest positive number \<open>2^(emin - 1)\<close>.\<close>

definition store_underflow_pos :: heap where
  "store_underflow_pos = store2 (mpc_init 53 (Zero False) (Zero False))
      (mpc_init 53 (Fin False 3 (- (2 ^ 62))) (Fin False 1 (1 - 2 ^ 62)))"


text \<open>The real number that a finite number stands for, and the finite nonzero numbers.\<close>

definition mpfr_value :: "mpfr_num \<Rightarrow> real" where
  "mpfr_value x = (case x of Fin s m e \<Rightarrow> of_int (smant s m) * 2 powi e | _ \<Rightarrow> 0)"

definition mpfr_regular_p :: "mpfr_num \<Rightarrow> bool" where
  "mpfr_regular_p x = (case x of Fin s m e \<Rightarrow> 0 < m | _ \<Rightarrow> False)"

text \<open>The two numbers that a call left at the address \<open>a\<close>, with the returned flags.\<close>

definition values_at ::
  "nat \<Rightarrow> (heap \<times> int) outcome option \<Rightarrow> ((mpfr_num \<times> mpfr_num) \<times> int) outcome option" where
  "values_at a r = map_option (map_outcome (\<lambda>(h, i). ((ld_re h a, ld_im h a), i))) r"

text \<open>A reduced exponent range, as set with \<open>mpfr_set_emin\<close> and \<open>mpfr_set_emax\<close>, and the
  operand \<open>(1 + 2^(-150)) + i\<close> of precision 200, for which \<open>x - y = 2^(-150)\<close> is below the
  smallest number of the range.\<close>

definition small_env :: env where
  "small_env = \<lparr> emin = - 100, emax = 100 \<rparr>"

definition store_tiny_diff :: heap where
  "store_tiny_diff = store2 (mpc_init 200 (Zero False) (Zero False))
      (mpc_init 200 (Fin False (2 ^ 150 + 1) (- 150)) (Fin False 1 0))"

section \<open>Properties of the arithmetic\<close>

subsection \<open>Mantissas\<close>

lemma bitlen_0 [simp]: "bitlen 0 = 0"
  by (simp add: bitlen.simps)

lemma bitlen_eq_0_iff [simp]: "bitlen m = 0 \<longleftrightarrow> m = 0"
  by (subst bitlen.simps) simp

lemma bitlen_le_iff: "bitlen m \<le> k \<longleftrightarrow> m < 2 ^ k"
proof (induction m arbitrary: k rule: bitlen.induct)
  case (1 n)
  show ?case
  proof (cases "n = 0")
    case True
    then show ?thesis by simp
  next
    case False
    show ?thesis
    proof (cases k)
      case 0
      with False show ?thesis by (subst bitlen.simps) simp
    next
      case (Suc j)
      have "bitlen n \<le> Suc j \<longleftrightarrow> bitlen (n div 2) \<le> j"
        using False by (subst bitlen.simps) simp
      also have "\<dots> \<longleftrightarrow> n div 2 < 2 ^ j"
        using 1 False by simp
      also have "\<dots> \<longleftrightarrow> n < 2 ^ Suc j"
        by auto
      finally show ?thesis using Suc by simp
    qed
  qed
qed

lemma bitlen_pos: "0 < m \<Longrightarrow> 0 < bitlen m"
  using bitlen_eq_0_iff [of m] by arith

lemma bitlen_lower: "0 < m \<Longrightarrow> 2 ^ (bitlen m - 1) \<le> m"
proof -
  assume m: "0 < m"
  have "0 < bitlen m"
    using m bitlen_eq_0_iff [of m] by arith
  then have "\<not> bitlen m \<le> bitlen m - 1"
    by simp
  then show ?thesis
    by (simp add: bitlen_le_iff)
qed

lemma bitlen_double: "0 < m \<Longrightarrow> bitlen (2 * m) = Suc (bitlen m)"
  by (subst bitlen.simps) simp

lemma bitlen_1 [simp]: "bitlen (Suc 0) = Suc 0"
  by (simp add: bitlen.simps)

lemma oddify_odd: "odd m \<Longrightarrow> oddify m e = (m, e)"
  by (simp add: oddify.simps)

lemma oddify_props:
  "0 < m \<Longrightarrow> oddify m e = (m', e') \<Longrightarrow>
     odd m' \<and> e \<le> e' \<and> m = m' * 2 ^ nat (e' - e) \<and> e' + int (bitlen m') = e + int (bitlen m)"
proof (induction m e rule: oddify.induct)
  case (1 m e)
  show ?case
  proof (cases "odd m")
    case True
    with 1 show ?thesis by (simp add: oddify.simps)
  next
    case False
    then obtain j where j: "m = 2 * j" by (auto elim: evenE)
    with "1.prems" have j0: "0 < j" by simp
    from False "1.prems" have eq: "oddify (m div 2) (e + 1) = (m', e')"
      by (subst (asm) oddify.simps) simp
    from "1.IH" [OF _ _ eq] False "1.prems" j j0
    have ih: "odd m'" "e + 1 \<le> e'" "j = m' * 2 ^ nat (e' - (e + 1))"
      "e' + int (bitlen m') = e + 1 + int (bitlen j)"
      by auto
    have "nat (e' - e) = Suc (nat (e' - (e + 1)))"
      using ih(2) by simp
    then have "m = m' * 2 ^ nat (e' - e)"
      using j ih(3) by simp
    moreover have "bitlen m = Suc (bitlen j)"
      using j j0 by (simp add: bitlen_double)
    ultimately show ?thesis using ih by simp
  qed
qed

lemma bitlen_mono: "a \<le> b \<Longrightarrow> bitlen a \<le> bitlen b"
proof -
  assume ab: "a \<le> b"
  have "b < 2 ^ bitlen b" using bitlen_le_iff [of b "bitlen b"] by simp
  with ab have "a < 2 ^ bitlen b" by simp
  then show ?thesis by (simp add: bitlen_le_iff)
qed

subsection \<open>Rounding a number that fits\<close>

lemma round_fin_exact:
  assumes "odd m" "bitlen m \<le> p" "emin E \<le> e + int (bitlen m)" "e + int (bitlen m) \<le> emax E"
  shows "round_fin E p rnd s m e = (Fin s m e, 0, False)"
proof -
  have k: "bitlen m - p = 0" using assms(2) by simp
  have up: "\<not> round_incr rnd s m 0 0" by (cases rnd) simp_all
  show ?thesis
    using assms up by (simp add: round_fin_def Let_def k mk_fin_def oddify_odd)
qed

lemma round_num_exact:
  "representable E p x \<Longrightarrow> round_num E p rnd x = (x, 0, False)"
  by (cases x) (simp_all add: representable_def round_fin_exact)

lemma representable_overflow:
  "0 < p \<Longrightarrow> emin E \<le> emax E \<Longrightarrow> representable E p (fst (mpfr_overflow E p rnd s))"
proof -
  assume p: "0 < p" and E: "emin E \<le> emax E"
  have lt: "(2::nat) ^ p - 1 < 2 ^ p" by simp
  have "\<not> (2::nat) ^ p - 1 < 2 ^ (p - 1)"
  proof -
    have "(2::nat) ^ p = 2 * 2 ^ (p - 1)" using p by (cases p) simp_all
    then show ?thesis by simp
  qed
  then have "bitlen (2 ^ p - 1) = p"
    using lt bitlen_le_iff [of "2 ^ p - 1" p] bitlen_le_iff [of "2 ^ p - 1" "p - 1"] p by arith
  moreover have "odd ((2::nat) ^ p - 1)" using p by simp
  ultimately show ?thesis
    using E by (simp add: mpfr_overflow_def representable_def mpfr_setmax_def)
qed

lemma representable_underflow:
  "0 < p \<Longrightarrow> emin E \<le> emax E \<Longrightarrow> representable E p (fst (mpfr_underflow E rnd s))"
  by (simp add: mpfr_underflow_def representable_def mpfr_setmin_def)

lemma representable_mk_fin:
  assumes m: "0 < m" "m \<le> 2 ^ p" and p: "0 < p"
    and ex: "emin E \<le> e + int (bitlen m)" "e + int (bitlen m) \<le> emax E"
  shows "representable E p (mk_fin s m e)"
proof -
  obtain m' e' where o: "oddify m e = (m', e')" by (cases "oddify m e")
  from oddify_props [OF m(1) o]
  have odd: "odd m'" and eq: "m = m' * 2 ^ nat (e' - e)"
    and ee: "e' + int (bitlen m') = e + int (bitlen m)" by auto
  have "m' \<le> m" by (subst eq) simp
  with m(2) have le: "m' \<le> 2 ^ p" by simp
  have "even ((2::nat) ^ p)" using p by simp
  with odd have "m' \<noteq> 2 ^ p" by auto
  with le have "m' < 2 ^ p" by simp
  then have "bitlen m' \<le> p" by (simp add: bitlen_le_iff)
  then show ?thesis
    using o odd ee ex by (simp add: mk_fin_def representable_def)
qed

lemma round_fin_representable:
  assumes m: "0 < m" and p: "0 < p" and E: "emin E \<le> emax E"
  shows "representable E p (fst (round_fin E p rnd s m e))"
proof -
  define n where "n = bitlen m"
  define k where "k = n - p"
  define q where "q = m div 2 ^ k"
  define r where "r = m mod 2 ^ k"
  define m' where "m' = (if round_incr rnd s q r k then q + 1 else q)"
  have n0: "0 < n" using bitlen_pos [OF m] by (simp add: n_def)
  have "m < 2 ^ n" using bitlen_le_iff [of m n] by (simp add: n_def)
  also have "\<dots> \<le> (2::nat) ^ (k + p)" by (rule power_increasing) (simp_all add: k_def)
  finally have "m < 2 ^ k * 2 ^ p" by (simp add: power_add)
  then have qlt: "q < 2 ^ p" by (simp add: q_def less_mult_imp_div_less mult.commute)
  have "k \<le> n - 1" using p n0 by (simp add: k_def)
  then have "(2::nat) ^ k \<le> 2 ^ (n - 1)" by (simp add: power_increasing)
  also have "\<dots> \<le> m" using bitlen_lower [OF m] by (simp add: n_def)
  finally have "0 < q" by (simp add: q_def div_greater_zero_iff)
  then have m'0: "0 < m'" and m'le: "m' \<le> 2 ^ p" using qlt by (simp_all add: m'_def)
  define ex where "ex = e + int k + int (bitlen m')"
  have fin: "representable E p (mk_fin s m' (e + int k))"
    if "emin E \<le> ex" "ex \<le> emax E"
    using representable_mk_fin [OF m'0 m'le p] that by (simp add: ex_def)
  have unf: "round_fin E p rnd s m e =
     (if ex > emax E then (case mpfr_overflow E p rnd s of (z, t) \<Rightarrow> (z, t, False))
      else if ex < emin E then
        (case mpfr_underflow E (underflow_rnd E rnd m e) s of (z, t) \<Rightarrow> (z, t, True))
      else (mk_fin s m' (e + int k), (if r = 0 then 0 else ternary s (round_incr rnd s q r k)), False))"
    unfolding round_fin_def Let_def n_def [symmetric] k_def [symmetric] q_def [symmetric]
      r_def [symmetric] m'_def [symmetric] ex_def [symmetric] m'_def [symmetric]
    by (simp add: m'_def ex_def)
  consider "ex > emax E" | "ex < emin E" "\<not> ex > emax E" | "emin E \<le> ex" "ex \<le> emax E"
    by linarith
  then show ?thesis
  proof cases
    case 1
    then show ?thesis
      using representable_overflow [OF p E, of rnd s] by (simp add: unf case_prod_beta)
  next
    case 2
    then show ?thesis
      using representable_underflow [OF p E, of _ s] by (simp add: unf case_prod_beta Let_def)
  next
    case 3
    then show ?thesis
      using fin by (simp add: unf)
  qed
qed

text \<open>A mantissa that fits the precision is rounded exactly, unless the exponent is out of
  range.\<close>

lemma round_incr_exact: "\<not> round_incr rnd s m 0 0"
  by (cases rnd) simp_all

lemma round_fin_fits:
  assumes "bitlen m \<le> p"
  shows "round_fin E p rnd s m e =
     (if e + int (bitlen m) > emax E then
        (fst (mpfr_overflow E p rnd s), snd (mpfr_overflow E p rnd s), False)
      else if e + int (bitlen m) < emin E then
        (fst (mpfr_underflow E (underflow_rnd E rnd m e) s),
         snd (mpfr_underflow E (underflow_rnd E rnd m e) s), True)
      else (mk_fin s m e, 0, False))"
proof -
  have k: "bitlen m - p = 0" using assms by simp
  show ?thesis
    by (simp add: round_fin_def Let_def k round_incr_exact case_prod_beta)
qed

subsection \<open>Rounding and negation\<close>

lemma round_incr_neg: "round_incr rnd (\<not> s) q r k = round_incr (INV_RND rnd) s q r k"
  by (cases rnd) auto

lemma rnd_away_neg: "rnd_away rnd (\<not> s) = rnd_away (INV_RND rnd) s"
  by (cases rnd) auto

lemma ternary_neg: "ternary (\<not> s) a = - ternary s a"
  by (auto simp: ternary_def)

lemma mk_fin_neg: "mk_fin (\<not> s) m e = mpfr_neg_num (mk_fin s m e)"
  by (simp add: mk_fin_def split: prod.splits)

lemma INV_RND_eq_N: "INV_RND rnd = MPFR_RNDN \<longleftrightarrow> rnd = MPFR_RNDN"
  by (cases rnd) auto

lemma INV_RND_Z: "INV_RND MPFR_RNDZ = MPFR_RNDZ"
  by simp

lemma mpfr_overflow_neg:
  "mpfr_overflow E p rnd (\<not> s) =
     (mpfr_neg_num (fst (mpfr_overflow E p (INV_RND rnd) s)), - snd (mpfr_overflow E p (INV_RND rnd) s))"
  by (simp add: mpfr_overflow_def rnd_away_neg ternary_neg mpfr_setmax_def)

lemma mpfr_underflow_neg:
  "mpfr_underflow E rnd (\<not> s) =
     (mpfr_neg_num (fst (mpfr_underflow E (INV_RND rnd) s)), - snd (mpfr_underflow E (INV_RND rnd) s))"
  by (simp add: mpfr_underflow_def rnd_away_neg ternary_neg mpfr_setmin_def)

lemma underflow_rnd_neg: "underflow_rnd E (INV_RND rnd) m e = INV_RND (underflow_rnd E rnd m e)"
  by (cases rnd) (simp_all add: underflow_rnd_def)

lemma round_fin_neg:
  "round_fin E p rnd (\<not> s) m e =
     (mpfr_neg_num (rnum (round_fin E p (INV_RND rnd) s m e)),
      - rinex (round_fin E p (INV_RND rnd) s m e),
      runderflow (round_fin E p (INV_RND rnd) s m e))"
  unfolding round_fin_def Let_def rnum_def rinex_def runderflow_def
  by (simp add: round_incr_neg mpfr_overflow_neg mpfr_underflow_neg
      underflow_rnd_neg ternary_neg mk_fin_neg case_prod_beta)

lemma mpfr_mul_neg_right:
  "mpfr_mul E p (Fin s m e) (mpfr_neg_num (Fin s m e)) rnd =
     (mpfr_neg_num (rnum (mpfr_sqr E p (Fin s m e) (INV_RND rnd))),
      - rinex (mpfr_sqr E p (Fin s m e) (INV_RND rnd)),
      runderflow (mpfr_sqr E p (Fin s m e) (INV_RND rnd)))"
  using round_fin_neg [of E p rnd False "m * m" "e + e"]
  by (simp add: mpfr_sqr_def)

subsection \<open>The store\<close>

lemma ld_re_st_re [simp]: "ld_re (st_re h a v) b = (if b = a then v else ld_re h b)"
  by (simp add: ld_re_def st_re_def)

lemma ld_re_st_im [simp]: "ld_re (st_im h a v) b = ld_re h b"
  by (simp add: ld_re_def st_im_def)

lemma ld_im_st_im [simp]: "ld_im (st_im h a v) b = (if b = a then v else ld_im h b)"
  by (simp add: ld_im_def st_im_def)

lemma ld_im_st_re [simp]: "ld_im (st_re h a v) b = ld_im h b"
  by (simp add: ld_im_def st_re_def)

lemma prec_st [simp]:
  "MPC_PREC_RE (st_re h a v b) = MPC_PREC_RE (h b)"
  "MPC_PREC_RE (st_im h a v b) = MPC_PREC_RE (h b)"
  "MPC_PREC_IM (st_re h a v b) = MPC_PREC_IM (h b)"
  "MPC_PREC_IM (st_im h a v b) = MPC_PREC_IM (h b)"
  by (simp_all add: MPC_PREC_RE_def MPC_PREC_IM_def st_re_def st_im_def)

lemma MPC_INEX_0 [simp]: "MPC_INEX 0 0 = 0"
  by (simp add: MPC_INEX_def MPC_INEX_POS_def)

lemma MPFR_SIGN_prod: "(MPFR_SIGN x * MPFR_SIGN y < 0) = (mpfr_signbit x \<noteq> mpfr_signbit y)"
  by (simp add: MPFR_SIGN_def)

lemma not_fin_cases:
  "\<not> mpc_fin_p z \<longleftrightarrow>
     mpfr_nan_p (mval (re z)) \<or> mpfr_nan_p (mval (im z)) \<or>
     mpfr_inf_p (mval (re z)) \<or> mpfr_inf_p (mval (im z))"
  by (cases "mval (re z)"; cases "mval (im z)") (simp_all add: mpc_fin_p_def)


subsection \<open>Results of the primitives fit the destination\<close>

lemma representable_neg [simp]: "representable E p (mpfr_neg_num x) = representable E p x"
  by (cases x) (simp_all add: representable_def)

lemma representable_mul:
  assumes p: "0 < p" and E: "emin E \<le> emax E"
    and x: "representable E px x" and y: "representable E py y"
  shows "representable E p (rnum (mpfr_mul E p x y rnd))"
proof (cases x)
  case (Fin s1 m1 e1)
  note xf = this
  show ?thesis
  proof (cases y)
    case (Fin s2 m2 e2)
    have "0 < m1 * m2" using x y xf Fin by (auto simp: representable_def elim: oddE)
    from round_fin_representable [OF this p E]
    show ?thesis using xf Fin by (simp add: rnum_def)
  qed (simp_all add: xf rnum_def representable_def)
next
  case NaN
  then show ?thesis by (cases y) (simp_all add: rnum_def representable_def)
next
  case (Inf s)
  then show ?thesis by (cases y) (simp_all add: rnum_def representable_def)
next
  case (Zero s)
  then show ?thesis by (cases y) (simp_all add: rnum_def representable_def)
qed

lemma mpfr_set_same:
  "representable E p x \<Longrightarrow> mpfr_set E p x rnd = (x, 0, False)"
  by (simp add: mpfr_set_def round_num_exact)

lemma mpfr_neg_same:
  "representable E p x \<Longrightarrow> mpfr_neg E p x rnd = (mpfr_neg_num x, 0, False)"
  by (simp add: mpfr_neg_def round_num_exact)

lemma mpc_conj_same:
  assumes "representable E (MPC_PREC_RE (h a)) (ld_re h a)"
    and "representable E (MPC_PREC_IM (h a)) (ld_im h a)"
  shows "ld_re (mpc_conj E h a a) a = ld_re h a"
    and "ld_im (mpc_conj E h a a) a = mpfr_neg_num (ld_im h a)"
  using assms by (simp_all add: mpc_conj_def Let_def mpfr_set_same mpfr_neg_same rnum_def)

lemma MPC_INEX_POS_0 [simp]: "MPC_INEX_POS 0 = 0"
  by (simp add: MPC_INEX_POS_def)



subsection \<open>Evaluation on numerals\<close>

lemmas bitlen_eval = bitlen.simps [of "numeral n" for n] bitlen.simps [of 1]

lemmas oddify_eval = oddify.simps [of "numeral n" for n] oddify.simps [of 1]
  oddify.simps [of "Suc 0"]

lemmas round_eval = round_fin_def mk_fin_def ternary_def mpfr_overflow_def mpfr_underflow_def
  underflow_rnd_def mpfr_setmax_def mpfr_setmin_def rnum_def rinex_def runderflow_def
  bitlen_eval oddify_eval Let_def

lemmas mpc_eval = store2_def mpc_init_def mpc_fin_p_def ld_re_def ld_im_def st_re_def st_im_def
  mpc_ok_def mpfr_ok_def representable_def MPC_PREC_RE_def MPC_PREC_IM_def MPC_MAX_PREC_def
  MPC_RND_RE_def MPC_RND_IM_def MPC_INEX_def MPC_INEX_POS_def widest_env_def

lemmas ceil_log2_eval = mpc_ceil_log2.simps [of "numeral n" for n] mpc_ceil_log2.simps [of 1]
  mpc_ceil_log2.simps [of 0] mpc_ceil_log2.simps [of "Suc 0"]

lemmas sqr_eval = mpc_sqr_def sqr_re_def skewed_def sqr_loop.simps sqr_pass_def store_if_ok_def
  sqr_im_def sqr_special_def sqr_real_axis_def sqr_imag_axis_def mpc_conj_def
  add_fin_def smant_def mpfr_sub_def mpfr_sqr_def mpfr_set_def mpfr_neg_def mpfr_set_si_def
  mpfr_set_ui_def mpfr_set_ui_2exp_def mpfr_mul_2exp_def ulong_def slong_def mpz_get_ui_def
  mpz_get_si_def mpfr_fmma_def fmma_rescue_def MPFR_SIGN_def result_at_def never_round_def
  ceil_log2_eval

subsection \<open>One step of the loop\<close>

lemma sqr_loop_Stop:
  "sqr_pass E cr p_re rnd_re x y (prec + mpc_ceil_log2 prec + 5) = Stop r \<Longrightarrow>
   sqr_loop E cr p_re rnd_re x y prec = Some (Returns r)"
  by (subst sqr_loop.simps) simp

lemma sqr_loop_Fail:
  "sqr_pass E cr p_re rnd_re x y (prec + mpc_ceil_log2 prec + 5) = Fail \<Longrightarrow>
   sqr_loop E cr p_re rnd_re x y prec = Some Aborts"
  by (subst sqr_loop.simps) simp

lemma sqr_loop_Again:
  "sqr_pass E cr p_re rnd_re x y (prec + mpc_ceil_log2 prec + 5) = Again \<Longrightarrow>
   sqr_loop E cr p_re rnd_re x y prec =
     sqr_loop E cr p_re rnd_re x y (prec + mpc_ceil_log2 prec + 5)"
  by (subst sqr_loop.simps) simp

section \<open>The real part against the fused product-sum\<close>

text \<open>
  Claim C1 says that, for a finite nonzero operand whose exponents differ by at most half the
  precision, the real part computed by the loop is the correctly rounded \<open>x^2 - y^2\<close>, the
  result of \<open>mpfr_fmma (x, x, y, y, -1)\<close>.  The code does not achieve it.  For
  \<open>x = 2^(j+1)\<close> and \<open>y = 3 * 2^j\<close> with \<open>j = - 2^61 - 1\<close>, in the widest exponent range
  and with precision 53 and rounding to nearest, the operand is not skewed, the value
  \<open>x^2 - y^2 = - 5 * 2^(2j)\<close> is representable and \<open>mpfr_fmma\<close> returns it with the flag 0,
  but its exponent is \<open>emin\<close>, the loop takes it for an underflow, and \<open>mpc_sqr\<close> stores \<open>+0\<close>
  with a positive flag.
\<close>

theorem mpc_sqr_real_part_not_fmma:
  "\<not> skewed (store_emin_neg 1) \<and>
   result_at 0 (mpc_sqr widest_env cr store_emin_neg 0 1 (MPFR_RNDN, MPFR_RNDN))
     = Some (Returns (mpc_init 53 (Zero False) (Fin False 3 (- (2 ^ 62))), MPC_INEX 1 0)) \<and>
   mpfr_fmma widest_env 53 (re (store_emin_neg 1)) (re (store_emin_neg 1))
       (im (store_emin_neg 1)) (im (store_emin_neg 1)) (- 1) MPFR_RNDN
     = (Fin True 5 (- (2 ^ 62) - 2), 0)"
  by (simp add: store_emin_neg_def sqr_eval round_eval mpc_eval)

section \<open>Special values\<close>

text \<open>
  Claim C2.  When a component of the operand is NaN, \<open>mpc_sqr\<close> stores (NaN, NaN).  When a
  component is infinite and none is NaN, the imaginary part of the result is NaN if the other
  component is a zero, and otherwise the infinity whose sign is the product of the signs of
  the two components; the real part is \<open>+\<infinity>\<close> when only the real component is
  infinite, \<open>-\<infinity>\<close> when only the imaginary component is, and NaN when both are.
  The call returns, and the returned pair of flags is \<open>MPC_INEX (0, 0) = 0\<close>, whatever the
  rounding directive; it holds for \<open>rop = op\<close> as well.
\<close>

theorem mpc_sqr_special_values:
  assumes "\<not> mpc_fin_p (h op)"
  shows "let x = ld_re h op; y = ld_im h op in
     \<exists>h'. mpc_sqr E cr h rop op rnd = Some (Returns (h', MPC_INEX 0 0)) \<and> MPC_INEX 0 0 = 0 \<and>
       ld_re h' rop =
         (if mpfr_nan_p x \<or> mpfr_nan_p y then NaN
          else if mpfr_inf_p x \<and> mpfr_inf_p y then NaN
          else if mpfr_inf_p x then Inf False
          else Inf True) \<and>
       ld_im h' rop =
         (if mpfr_nan_p x \<or> mpfr_nan_p y then NaN
          else if mpfr_zero_p x \<or> mpfr_zero_p y then NaN
          else Inf (mpfr_signbit x \<noteq> mpfr_signbit y))"
proof -
  have run: "mpc_sqr E cr h rop op rnd = Some (Returns (sqr_special h rop op, MPC_INEX 0 0))"
    using assms by (simp add: mpc_sqr_def)
  have nf: "mpfr_nan_p (ld_re h op) \<or> mpfr_nan_p (ld_im h op) \<or>
     mpfr_inf_p (ld_re h op) \<or> mpfr_inf_p (ld_im h op)"
    using assms by (simp add: not_fin_cases ld_re_def ld_im_def)
  then have re: "ld_re (sqr_special h rop op) rop =
         (if mpfr_nan_p (ld_re h op) \<or> mpfr_nan_p (ld_im h op) then NaN
          else if mpfr_inf_p (ld_re h op) \<and> mpfr_inf_p (ld_im h op) then NaN
          else if mpfr_inf_p (ld_re h op) then Inf False
          else Inf True)"
    by (simp add: sqr_special_def Let_def)
  have im: "ld_im (sqr_special h rop op) rop =
         (if mpfr_nan_p (ld_re h op) \<or> mpfr_nan_p (ld_im h op) then NaN
          else if mpfr_zero_p (ld_re h op) \<or> mpfr_zero_p (ld_im h op) then NaN
          else Inf (mpfr_signbit (ld_re h op) \<noteq> mpfr_signbit (ld_im h op)))"
    using nf by (cases "ld_re h op"; cases "ld_im h op")
      (simp_all add: sqr_special_def Let_def MPFR_SIGN_prod)
  show ?thesis
    unfolding Let_def using run re im by simp
qed

theorem mpc_sqr_special_values_witness:
  "\<not> mpc_fin_p (store2 (mpc_init 53 (Inf False) (Fin True 3 0))
                    (mpc_init 53 (Inf False) (Fin True 3 0)) 1) \<and>
   (\<exists>h'. mpc_sqr widest_env never_round
            (store2 (mpc_init 53 (Inf False) (Fin True 3 0))
               (mpc_init 53 (Inf False) (Fin True 3 0))) 0 1 (MPFR_RNDN, MPFR_RNDU)
          = Some (Returns (h', 0)) \<and>
         ld_re h' 0 = Inf False \<and> ld_im h' 0 = Inf True)"
  using mpc_sqr_special_values
    [where h = "store2 (mpc_init 53 (Inf False) (Fin True 3 0))
                  (mpc_init 53 (Inf False) (Fin True 3 0))"
       and op = 1 and rop = 0 and E = widest_env and cr = never_round
       and rnd = "(MPFR_RNDN, MPFR_RNDU)"]
  by (simp add: round_eval mpc_eval)

section \<open>Operands on an axis\<close>

text \<open>
  Claim C3.  For a finite operand \<open>x + iy\<close> whose imaginary part is a zero, \<open>mpc_sqr\<close> stores
  in the real part the square of \<open>x\<close> rounded once to the precision of the real part of the
  result in the rounding mode of the real part.  When instead the real part is a zero, it
  stores the negated square of \<open>y\<close>, that is \<open>y * (-y)\<close> rounded once in the same way.  In
  both cases the imaginary part of the result is a zero, \<open>+0\<close> when the sign bits of \<open>x\<close>
  and \<open>y\<close> agree and \<open>-0\<close> (the conjugate) when they differ, and the returned flags are
  those of the rounding of the real part and 0.
\<close>

theorem mpc_sqr_degenerate_axis:
  assumes fin: "mpc_fin_p (h op)"
    and axis: "mpfr_zero_p (ld_im h op) \<or> mpfr_zero_p (ld_re h op)"
    and ok: "mpc_ok E (h op)"
    and p: "0 < MPC_PREC_RE (h rop)"
    and E: "emin E \<le> emax E"
  shows "let x = ld_re h op; y = ld_im h op; p = MPC_PREC_RE (h rop);
             R = (if mpfr_zero_p y then mpfr_sqr E p x (MPC_RND_RE rnd)
                  else mpfr_mul E p y (mpfr_neg_num y) (MPC_RND_RE rnd))
         in \<exists>h'. mpc_sqr E cr h rop op rnd = Some (Returns (h', MPC_INEX (rinex R) 0)) \<and>
              ld_re h' rop = rnum R \<and>
              ld_im h' rop = Zero (mpfr_signbit x \<noteq> mpfr_signbit y)"
proof -
  define x where "x = ld_re h op"
  define y where "y = ld_im h op"
  define q where "q = MPC_PREC_RE (h rop)"
  have rx: "representable E (MPC_PREC_RE (h op)) x" and ry: "representable E (MPC_PREC_IM (h op)) y"
    using ok by (simp_all add: mpc_ok_def mpfr_ok_def x_def y_def ld_re_def ld_im_def
        MPC_PREC_RE_def MPC_PREC_IM_def)
  have zim: "representable E pp (Zero s)" for pp s by (simp add: representable_def)
  show ?thesis
  proof (cases "mpfr_zero_p y")
    case True
    define r where "r = mpfr_sqr E q x (MPC_RND_RE rnd)"
    have rr: "representable E q (rnum r)"
      unfolding r_def mpfr_sqr_def using representable_mul [OF _ E rx rx] p by (simp add: q_def)
    have run: "mpc_sqr E cr h rop op rnd = Some (Returns (sqr_real_axis E h rop op rnd))"
      using fin True by (simp add: mpc_sqr_def y_def)
    have "snd (sqr_real_axis E h rop op rnd) = MPC_INEX (rinex r) 0"
      by (simp add: sqr_real_axis_def Let_def r_def q_def x_def mpfr_set_ui_def rinex_def)
    moreover have "ld_re (fst (sqr_real_axis E h rop op rnd)) rop = rnum r"
      using rr by (simp add: sqr_real_axis_def Let_def r_def q_def x_def mpfr_set_ui_def
          mpc_conj_same zim rnum_def)
    moreover have "ld_im (fst (sqr_real_axis E h rop op rnd)) rop =
        Zero (mpfr_signbit x \<noteq> mpfr_signbit y)"
      using rr by (simp add: sqr_real_axis_def Let_def r_def q_def x_def y_def mpfr_set_ui_def
          mpc_conj_same zim rnum_def)
    ultimately show ?thesis
      using run True unfolding Let_def x_def [symmetric] y_def [symmetric] q_def [symmetric]
      by (simp add: r_def [symmetric]) (metis prod.collapse)
  next
    case False
    with axis have zx: "mpfr_zero_p x" by (simp add: x_def y_def)
    from False fin obtain s m e where yf: "y = Fin s m e"
      by (cases y) (simp_all add: y_def mpc_fin_p_def ld_im_def)
    define r where "r = mpfr_sqr E q y (INV_RND (MPC_RND_RE rnd))"
    have R: "mpfr_mul E q y (mpfr_neg_num y) (MPC_RND_RE rnd) =
        (mpfr_neg_num (rnum r), - rinex r, runderflow r)"
      unfolding yf r_def by (rule mpfr_mul_neg_right)
    have rr: "representable E q (rnum r)"
      unfolding r_def mpfr_sqr_def using representable_mul [OF _ E ry ry] p by (simp add: q_def)
    have run: "mpc_sqr E cr h rop op rnd = Some (Returns (sqr_imag_axis E h rop op rnd))"
      using fin False zx by (simp add: mpc_sqr_def y_def x_def)
    have "snd (sqr_imag_axis E h rop op rnd) = MPC_INEX (- rinex r) 0"
      by (simp add: sqr_imag_axis_def Let_def r_def q_def y_def mpfr_set_ui_def rinex_def)
    moreover have "ld_re (fst (sqr_imag_axis E h rop op rnd)) rop = mpfr_neg_num (rnum r)"
      using rr by (simp add: sqr_imag_axis_def Let_def r_def q_def y_def mpfr_set_ui_def
          mpc_conj_same zim rnum_def mpfr_neg_same)
    moreover have "ld_im (fst (sqr_imag_axis E h rop op rnd)) rop =
        Zero (mpfr_signbit x \<noteq> mpfr_signbit y)"
      using rr by (simp add: sqr_imag_axis_def Let_def r_def q_def x_def y_def mpfr_set_ui_def
          mpc_conj_same zim rnum_def mpfr_neg_same)
    ultimately show ?thesis
      using run False unfolding Let_def x_def [symmetric] y_def [symmetric] q_def [symmetric]
      by (simp add: R rnum_def rinex_def) (metis prod.collapse)
  qed
qed

theorem mpc_sqr_degenerate_axis_witness:
  "mpc_fin_p (store2 (mpc_init 2 (Zero False) (Zero False))
                (mpc_init 2 (Zero True) (Fin False 3 0)) 1) \<and>
   (\<exists>h'. mpc_sqr widest_env never_round
            (store2 (mpc_init 2 (Zero False) (Zero False))
               (mpc_init 2 (Zero True) (Fin False 3 0))) 0 1 (MPFR_RNDU, MPFR_RNDN)
          = Some (Returns (h', 1)) \<and>
         ld_re h' 0 = Fin True 1 3 \<and> ld_im h' 0 = Zero True)"
  using mpc_sqr_degenerate_axis
    [where h = "store2 (mpc_init 2 (Zero False) (Zero False))
                  (mpc_init 2 (Zero True) (Fin False 3 0))"
       and op = 1 and rop = 0 and E = widest_env and cr = never_round
       and rnd = "(MPFR_RNDU, MPFR_RNDN)"]
  by (simp add: round_eval mpc_eval)

section \<open>The imaginary part\<close>







section \<open>Overflow\<close>

subsection \<open>The value stored on overflow\<close>

text \<open>In \<open>mpfr_fmma\<close> and in both branches of the loop the stored number is the one
  \<open>mpfr_overflow\<close> gives for the rounding mode: an infinity or the largest number of the
  precision.  In \<open>mpfr_fmma\<close> and in the positive branch the flag is the one of
  \<open>mpfr_overflow\<close> too.  In the negative branch it is, when the result is \<open>-\<infinity>\<close>, the
  value of \<open>inexact\<close>, whose sign depends on how \<open>u\<close> and \<open>v\<close> were rounded.\<close>

lemma ulong_id: "0 \<le> i \<Longrightarrow> i < 2 ^ 64 \<Longrightarrow> int (ulong i) = i"
  by (simp add: ulong_def)

lemma overflow_by_scaling:
  assumes p: "0 < p" and E: "emin E \<le> 1" "1 \<le> emax E" "emax E < 2 ^ 64"
  shows "mpfr_mul_2ui E p (rnum (mpfr_set_si E p (if s then - 1 else 1) MPFR_RNDN))
           (ulong (emax E)) rnd
         = (fst (mpfr_overflow E p rnd s), snd (mpfr_overflow E p rnd s), False)"
proof -
  have b: "bitlen 1 \<le> p" using p by (simp add: bitlen_eval)
  have one: "mpfr_set_si E p (if s then - 1 else 1) MPFR_RNDN = (Fin s 1 0, 0, False)"
    using E round_fin_fits [OF b, of E MPFR_RNDN s 0]
    by (cases s) (simp_all add: mpfr_set_si_def bitlen_eval mk_fin_def oddify_eval)
  have "int (ulong (emax E)) = emax E" using E by (simp add: ulong_id)
  then show ?thesis
    using E round_fin_fits [OF b, of E rnd s "emax E"]
    by (simp add: one rnum_def bitlen_eval)
qed

lemma mpfr_fmma_overflow:
  assumes p: "0 < p" and E: "emin E \<le> 1" "1 \<le> emax E" "emax E < 2 ^ 64"
    and z: "rnum (mpfr_add E p
                (rnum (mpfr_mul E (mprec a + mprec b) (mval a) (mval b) MPFR_RNDN))
                (if sign < 0
                 then rnum (mpfr_neg E (mprec c + mprec d)
                        (rnum (mpfr_mul E (mprec c + mprec d) (mval c) (mval d) MPFR_RNDN)) MPFR_RNDN)
                 else rnum (mpfr_mul E (mprec c + mprec d) (mval c) (mval d) MPFR_RNDN))
                rnd) = Inf s"
  shows "mpfr_fmma E p a b c d sign rnd = mpfr_overflow E p rnd s"
  using z overflow_by_scaling [OF p E, of s rnd]
  by (cases "sign < 0"; cases s) (simp_all add: mpfr_fmma_def Let_def rnum_def rinex_def)

lemma sqr_pass_overflow_positive:
  assumes p: "0 < p_re" and E: "emin E \<le> emax E"
    and u: "rnum (mpfr_add E prec x y MPFR_RNDA) = u"
    and v: "rnum (mpfr_sub E prec x y MPFR_RNDA) = v"
    and pos: "mpfr_sgn u * mpfr_sgn v > 0"
    and w: "mpfr_inf_p (rnum (mpfr_mul E prec u v MPFR_RNDU))"
    and ex: "emin E \<noteq> - (2 ^ 63) + 3"
  shows "sqr_pass E cr p_re rnd_re x y prec = Stop (mpfr_overflow E p_re rnd_re False)"
proof -
  have b: "bitlen 1 \<le> p_re" using p by (simp add: bitlen_eval)
  obtain s where inf: "rnum (mpfr_mul E prec u v MPFR_RNDU) = Inf s"
    using w by (cases "rnum (mpfr_mul E prec u v MPFR_RNDU)") simp_all
  have s: "mpfr_sgn u \<noteq> 0" "mpfr_sgn v \<noteq> 0" using pos by auto
  have "mpfr_set_ui_2exp E p_re 1 (emax E) rnd_re
      = (fst (mpfr_overflow E p_re rnd_re False), snd (mpfr_overflow E p_re rnd_re False), False)"
    using round_fin_fits [OF b, of E rnd_re False "emax E"]
    by (simp add: mpfr_set_ui_2exp_def bitlen_eval)
  then show ?thesis
    unfolding sqr_pass_def Let_def u v using s pos inf ex
    by (simp add: rnum_def rinex_def)
qed

lemma bitlen_mask: "bitlen (2 ^ p - 1) = p"
proof (cases p)
  case 0
  then show ?thesis by simp
next
  case (Suc j)
  have lt: "(2::nat) ^ p - 1 < 2 ^ p" by simp
  have "\<not> (2::nat) ^ p - 1 < 2 ^ j" using Suc by simp
  then have "\<not> bitlen (2 ^ p - 1) \<le> j" by (simp add: bitlen_le_iff)
  moreover have "bitlen (2 ^ p - 1) \<le> p" using lt by (simp add: bitlen_le_iff)
  ultimately show ?thesis using Suc by simp
qed

lemma mask_div: "k \<le> n \<Longrightarrow> ((2::nat) ^ n - 1) div 2 ^ k = 2 ^ (n - k) - 1"
  using drop_bit_mask_eq [of k n, where ?'a = nat]
  by (simp add: drop_bit_eq_div mask_eq_exp_minus_1)

lemma mask_mod: "k \<le> n \<Longrightarrow> ((2::nat) ^ n - 1) mod 2 ^ k = 2 ^ k - 1"
  using take_bit_of_mask [of k n, where ?'a = nat]
  by (simp add: take_bit_eq_mod mask_eq_exp_minus_1 min_def)

lemma mpfr_set_setmax:
  assumes p: "0 < p" "p < prec" and E: "emin E \<le> emax E" and rnd: "\<not> rnd_away rnd s"
  shows "mpfr_set E p (mpfr_setmax E prec s) rnd = (mpfr_setmax E p s, ternary s False, False)"
proof -
  define k where "k = prec - p"
  have k: "k \<le> prec" "0 < k" "prec - k = p" using p by (simp_all add: k_def)
  have q: "((2::nat) ^ prec - 1) div 2 ^ k = 2 ^ p - 1" using mask_div [OF k(1)] k by simp
  have r: "((2::nat) ^ prec - 1) mod 2 ^ k = 2 ^ k - 1" using mask_mod [OF k(1)] by simp
  have "(2::nat) ^ 1 \<le> 2 ^ k" using k(2) by (intro power_increasing) simp_all
  then have r0: "(2::nat) ^ k - 1 \<noteq> 0" by simp
  have up: "\<not> round_incr rnd s (2 ^ p - 1) (2 ^ k - 1) k"
  proof (cases rnd)
    case MPFR_RNDN
    with rnd show ?thesis by simp
  qed (use rnd in simp_all)
  have odd: "odd ((2::nat) ^ p - 1)" using p by simp
  have e: "emax E - int prec + int k = emax E - int p" using p by (simp add: k_def)
  show ?thesis
    unfolding mpfr_set_def mpfr_setmax_def round_num.simps round_fin_def Let_def
      bitlen_mask k_def [symmetric] q r
    using up r0 E odd
    by (simp add: bitlen_mask [simplified] e mk_fin_def oddify_odd)
qed

lemma sqr_pass_overflow_negative:
  assumes p: "0 < p_re" "p_re < prec" and E: "emin E \<le> 1" "1 \<le> emax E" "emax E < 2 ^ 64"
    and ru: "mpfr_add E prec x y MPFR_RNDA = ru"
    and rv: "mpfr_sub E prec x y MPFR_RNDA = rv"
    and neg: "mpfr_sgn (rnum ru) * mpfr_sgn (rnum rv) < 0"
    and rm: "mpfr_mul E prec (rnum ru) (rnum rv) MPFR_RNDD = rm"
    and inf: "mpfr_inf_p (rnum rm)"
  shows "sqr_pass E cr p_re rnd_re x y prec =
           Stop (fst (mpfr_overflow E p_re rnd_re True),
                 if rnd_away rnd_re True then (rinex ru OR rinex rv) OR rinex rm else 1)"
proof -
  have prec: "0 < prec" using p by simp
  have E': "emin E \<le> emax E" using E by simp
  have s: "mpfr_sgn (rnum ru) \<noteq> 0" "mpfr_sgn (rnum rv) \<noteq> 0"
    "\<not> 0 < mpfr_sgn (rnum ru) * mpfr_sgn (rnum rv)"
    using neg by auto
  have u2: "rnum (mpfr_mul_2ui E prec (rnum (mpfr_set_si E prec (- 1) MPFR_RNDN))
                    (ulong (emax E)) rnd_re) = fst (mpfr_overflow E prec rnd_re True)"
    using overflow_by_scaling [OF prec E, of True rnd_re] by (simp add: rnum_def)
  have st: "store_if_ok E p_re rnd_re True (fst (mpfr_overflow E prec rnd_re True)) i =
      Stop (fst (mpfr_overflow E p_re rnd_re True), if rnd_away rnd_re True then i else 1)" for i
  proof (cases "rnd_away rnd_re True")
    case True
    then show ?thesis
      by (simp add: store_if_ok_def mpfr_overflow_def mpfr_set_def rnum_def rinex_def)
  next
    case False
    then show ?thesis
      using mpfr_set_setmax [OF p E' False]
      by (simp add: store_if_ok_def mpfr_overflow_def rnum_def rinex_def ternary_def)
  qed
  show ?thesis
    unfolding sqr_pass_def Let_def ru rv rm u2 using s inf
    by (simp add: st)
qed

subsection \<open>A flag of the wrong sign\<close>

text \<open>
  Claim C5 says that on overflow the stored result is the correctly rounded overflow value
  with a matching nonzero flag.  In the negative branch of the loop the flag can have the
  wrong sign.  For \<open>x = 2^(emax-1)\<close> and \<open>y = 3 * 2^(emax-2)\<close>, in the widest exponent range
  and with rounding to nearest, \<open>u = x + y\<close> overflows to \<open>+\<infinity>\<close> with a positive flag and
  \<open>v = x - y\<close> is exact and negative; the product is \<open>-\<infinity>\<close> with the flag 0, so \<open>inexact\<close> is
  positive, and it becomes \<open>inex_re\<close> at line 352: \<open>mpc_sqr\<close> stores \<open>-\<infinity>\<close> in the real part
  with a positive flag, where \<open>mpfr_fmma\<close> returns \<open>-\<infinity>\<close> with a negative one.
\<close>

theorem mpc_sqr_overflow_flag:
  "result_at 0 (mpc_sqr widest_env cr store_ovf 0 1 (MPFR_RNDN, MPFR_RNDN))
     = Some (Returns (mpc_init 53 (Inf True) (Inf False), MPC_INEX 1 1)) \<and>
   mpfr_fmma widest_env 53 (re (store_ovf 1)) (re (store_ovf 1))
       (im (store_ovf 1)) (im (store_ovf 1)) (- 1) MPFR_RNDN
     = (Inf True, - 1)"
  by (simp add: store_ovf_def sqr_eval round_eval mpc_eval)

section \<open>The underflow boundary in the loop\<close>

subsection \<open>A negative product with the exponent emin\<close>

text \<open>
  In a pass of the loop, when \<open>u\<close> and \<open>v\<close> have opposite signs and their product \<open>w\<close>,
  rounded downwards at the working precision, is not infinite and has the exponent \<open>emin\<close>,
  the loop stops in this pass (lines 327 to 344).  When the rounding mode of the real part is
  towards zero, to nearest or upwards (which is towards zero for this negative product), the
  real part is set to \<open>+0\<close> and \<open>inex_re\<close> is 1, the magnitude having been rounded down.
  When it is downwards or away from zero, \<open>w\<close> is stored with \<open>mpfr_set\<close>, that is
  rounded to the precision of the real part, and \<open>inex_re\<close> is \<open>-1\<close>.
\<close>

lemma sqr_pass_underflow_boundary:
  assumes u: "rnum (mpfr_add E (prec + mpc_ceil_log2 prec + 5) x y MPFR_RNDA) = u"
    and v: "rnum (mpfr_sub E (prec + mpc_ceil_log2 prec + 5) x y MPFR_RNDA) = v"
    and w: "rnum (mpfr_mul E (prec + mpc_ceil_log2 prec + 5) u v MPFR_RNDD) = w"
    and neg: "mpfr_sgn u * mpfr_sgn v < 0"
    and fin: "\<not> mpfr_inf_p w"
    and ex: "mpfr_get_exp w = emin E"
  shows "sqr_loop E cr p_re rnd_re x y prec =
           Some (Returns
             (if rnd_re = MPFR_RNDZ \<or> rnd_re = MPFR_RNDN \<or> rnd_re = MPFR_RNDU
              then (Zero False, 1)
              else (rnum (mpfr_set E p_re w rnd_re), - 1)))"
proof -
  have s: "mpfr_sgn u \<noteq> 0" "mpfr_sgn v \<noteq> 0" "\<not> 0 < mpfr_sgn u * mpfr_sgn v"
    using neg by auto
  have "sqr_pass E cr p_re rnd_re x y (prec + mpc_ceil_log2 prec + 5) =
      Stop (if rnd_re = MPFR_RNDZ \<or> rnd_re = MPFR_RNDN \<or> rnd_re = MPFR_RNDU
            then (Zero False, 1)
            else (rnum (mpfr_set E p_re w rnd_re), - 1))"
    unfolding sqr_pass_def Let_def u v w using s fin ex
    by (simp add: mpfr_set_ui_def rnum_def)
  then show ?thesis by (rule sqr_loop_Stop)
qed

lemma sqr_pass_underflow_boundary_example:
  "rnum (mpfr_add widest_env (53 + mpc_ceil_log2 53 + 5) (Fin False 1 (- (2 ^ 61)))
           (Fin False 3 (- (2 ^ 61) - 1)) MPFR_RNDA) = Fin False 5 (- (2 ^ 61) - 1) \<and>
   rnum (mpfr_sub widest_env (53 + mpc_ceil_log2 53 + 5) (Fin False 1 (- (2 ^ 61)))
           (Fin False 3 (- (2 ^ 61) - 1)) MPFR_RNDA) = Fin True 1 (- (2 ^ 61) - 1) \<and>
   rnum (mpfr_mul widest_env (53 + mpc_ceil_log2 53 + 5) (Fin False 5 (- (2 ^ 61) - 1))
           (Fin True 1 (- (2 ^ 61) - 1)) MPFR_RNDD) = Fin True 5 (- (2 ^ 62) - 2) \<and>
   mpfr_sgn (Fin False 5 (- (2 ^ 61) - 1)) * mpfr_sgn (Fin True 1 (- (2 ^ 61) - 1)) < 0 \<and>
   \<not> mpfr_inf_p (Fin True 5 (- (2 ^ 62) - 2)) \<and>
   mpfr_get_exp (Fin True 5 (- (2 ^ 62) - 2)) = emin widest_env \<and>
   sqr_loop widest_env never_round 53 MPFR_RNDD (Fin False 1 (- (2 ^ 61)))
       (Fin False 3 (- (2 ^ 61) - 1)) 53
     = Some (Returns (Fin True 5 (- (2 ^ 62) - 2), - 1))"
proof -
  have u: "rnum (mpfr_add widest_env (53 + mpc_ceil_log2 53 + 5) (Fin False 1 (- (2 ^ 61)))
           (Fin False 3 (- (2 ^ 61) - 1)) MPFR_RNDA) = Fin False 5 (- (2 ^ 61) - 1)"
    by (simp add: sqr_eval round_eval mpc_eval)
  have v: "rnum (mpfr_sub widest_env (53 + mpc_ceil_log2 53 + 5) (Fin False 1 (- (2 ^ 61)))
           (Fin False 3 (- (2 ^ 61) - 1)) MPFR_RNDA) = Fin True 1 (- (2 ^ 61) - 1)"
    by (simp add: sqr_eval round_eval mpc_eval)
  have w: "rnum (mpfr_mul widest_env (53 + mpc_ceil_log2 53 + 5) (Fin False 5 (- (2 ^ 61) - 1))
           (Fin True 1 (- (2 ^ 61) - 1)) MPFR_RNDD) = Fin True 5 (- (2 ^ 62) - 2)"
    by (simp add: sqr_eval round_eval mpc_eval)
  have n: "mpfr_sgn (Fin False 5 (- (2 ^ 61) - 1)) * mpfr_sgn (Fin True 1 (- (2 ^ 61) - 1)) < 0"
    by simp
  have f: "\<not> mpfr_inf_p (Fin True 5 (- (2 ^ 62) - 2))" by simp
  have e: "mpfr_get_exp (Fin True 5 (- (2 ^ 62) - 2)) = emin widest_env"
    by (simp add: round_eval mpc_eval)
  from sqr_pass_underflow_boundary [OF u v w n f e, of never_round 53 MPFR_RNDD]
  show ?thesis using u v w n f e by (simp add: sqr_eval round_eval mpc_eval)
qed

subsection \<open>A positive product with the exponent emin\<close>

text \<open>
  Claim C6 says that whenever the tentative product, rounded in its directed mode, has the
  exponent \<open>emin\<close>, the loop stops with a result: \<open>0\<close> when the real part is rounded towards
  zero or to nearest, the boundary value when it is rounded away from zero.  The code does so
  for a negative product only.  For the operand \<open>x + iy\<close> with \<open>x = 3 * 2^(emin - 1)\<close> and
  \<open>y = 2^emin\<close> in the widest exponent range, with precision 53, the sums
  \<open>u = 5 * 2^(emin - 1)\<close> and \<open>v = 2^(emin - 1)\<close> are exact and positive, and their product
  \<open>5 * 2^(2 emin - 2)\<close> underflows: rounded upwards at the working precision 64 it is the
  smallest positive number \<open>2^(emin - 1)\<close>, of exponent \<open>emin\<close>, with the underflow flag
  raised.  The pass then fails the assertion of line 297 and the call aborts, whatever the
  rounding modes and whatever \<open>mpfr_can_round\<close> answers, where the correctly rounded real
  part towards zero is \<open>+0\<close> with a negative flag, as \<open>mpfr_fmma\<close> computes it.  The call
  aborts as well for \<open>x = 5 * 2^j\<close> and \<open>y = 3 * 2^j\<close> with \<open>j = - 2^61 - 2\<close>, where the product
  \<open>2^(2j + 4)\<close> is exact and has the exponent \<open>emin\<close>.
\<close>

theorem mpc_sqr_underflow_positive_aborts:
  "mpc_fin_p (store_underflow_pos 1) \<and> mpc_ok widest_env (store_underflow_pos 1) \<and>
   \<not> skewed (store_underflow_pos 1) \<and>
   rnum (mpfr_add widest_env 64 (Fin False 3 (- (2 ^ 62))) (Fin False 1 (1 - 2 ^ 62)) MPFR_RNDA)
     = Fin False 5 (- (2 ^ 62)) \<and>
   rnum (mpfr_sub widest_env 64 (Fin False 3 (- (2 ^ 62))) (Fin False 1 (1 - 2 ^ 62)) MPFR_RNDA)
     = Fin False 1 (- (2 ^ 62)) \<and>
   mpfr_mul widest_env 64 (Fin False 5 (- (2 ^ 62))) (Fin False 1 (- (2 ^ 62))) MPFR_RNDU
     = (Fin False 1 (- (2 ^ 62)), 1, True) \<and>
   mpfr_get_exp (Fin False 1 (- (2 ^ 62))) = emin widest_env \<and>
   sqr_pass widest_env cr 53 rnd_re (Fin False 3 (- (2 ^ 62))) (Fin False 1 (1 - 2 ^ 62)) 64
     = Fail \<and>
   mpc_sqr widest_env cr store_underflow_pos 0 1 (rnd_re, rnd_im) = Some Aborts \<and>
   mpfr_fmma widest_env 53 (re (store_underflow_pos 1)) (re (store_underflow_pos 1))
       (im (store_underflow_pos 1)) (im (store_underflow_pos 1)) (- 1) MPFR_RNDZ
     = (Zero False, - 1) \<and>
   mpc_sqr widest_env cr store_emin_pos2 0 1 (rnd_re, rnd_im) = Some Aborts"
  by (simp add: store_underflow_pos_def store_emin_pos2_def sqr_eval round_eval mpc_eval)

section \<open>Exact cancellation in the loop\<close>

lemma sgn_round_fin_away: "mpfr_sgn (rnum (round_fin E p MPFR_RNDA s m e)) \<noteq> 0"
  by (simp add: round_fin_def Let_def rnum_def mpfr_overflow_def mpfr_underflow_def
      underflow_rnd_def mpfr_setmin_def mk_fin_def split: prod.splits)

lemma powi_split: "(2::real) powi (int k + e0) = 2 ^ k * 2 powi e0"
  by (subst power_int_add) (simp_all add: power_int_of_nat)

lemma mpfr_value_scaled:
  "e0 \<le> e \<Longrightarrow> mpfr_value (Fin s m e) = of_int (smant s m * 2 ^ nat (e - e0)) * 2 powi e0"
proof -
  assume le: "e0 \<le> e"
  define k where "k = nat (e - e0)"
  have e: "e = int k + e0" using le by (simp add: k_def)
  show ?thesis
    unfolding k_def [symmetric] by (simp add: mpfr_value_def e powi_split)
qed

lemma add_fin_zero_value:
  assumes "mpfr_sgn (rnum (add_fin E p MPFR_RNDA s1 m1 e1 s2 m2 e2)) = 0"
  shows "mpfr_value (Fin s1 m1 e1) + mpfr_value (Fin s2 m2 e2) = 0"
proof -
  define e0 where "e0 = min e1 e2"
  define c where "c = smant s1 m1 * 2 ^ nat (e1 - e0) + smant s2 m2 * 2 ^ nat (e2 - e0)"
  have "c = 0"
  proof (rule ccontr)
    assume "c \<noteq> 0"
    then have "add_fin E p MPFR_RNDA s1 m1 e1 s2 m2 e2 =
        round_fin E p MPFR_RNDA (c < 0) (nat \<bar>c\<bar>) e0"
      by (simp add: add_fin_def Let_def c_def e0_def)
    with assms sgn_round_fin_away show False by simp
  qed
  moreover have "mpfr_value (Fin s1 m1 e1) + mpfr_value (Fin s2 m2 e2) = of_int c * 2 powi e0"
    unfolding c_def
    by (simp add: mpfr_value_scaled [of e0 e1] mpfr_value_scaled [of e0 e2] e0_def algebra_simps)
  ultimately show ?thesis by simp
qed

lemma mpfr_value_neg: "mpfr_value (mpfr_neg_num x) = - mpfr_value x"
  by (cases x) (simp_all add: mpfr_value_def smant_def)

text \<open>
  Claim C7.  For a finite nonzero operand \<open>x + iy\<close>, if in a pass of the loop \<open>u = x + y\<close> or
  \<open>v = x - y\<close>, rounded away from zero at the working precision, is zero, then the real
  number \<open>x^2 - y^2\<close> is zero, and the loop ends in this pass with the real part \<open>+0\<close> and
  \<open>inex_re = 0\<close>.
\<close>

theorem sqr_loop_exact_zero:
  assumes x: "mpfr_regular_p x" and y: "mpfr_regular_p y"
    and z: "mpfr_sgn (rnum (mpfr_add E (prec + mpc_ceil_log2 prec + 5) x y MPFR_RNDA)) = 0 \<or>
            mpfr_sgn (rnum (mpfr_sub E (prec + mpc_ceil_log2 prec + 5) x y MPFR_RNDA)) = 0"
  shows "mpfr_value x * mpfr_value x - mpfr_value y * mpfr_value y = 0 \<and>
         sqr_loop E cr p_re rnd_re x y prec = Some (Returns (Zero False, 0))"
proof -
  from x obtain s1 m1 e1 where xf: "x = Fin s1 m1 e1"
    by (cases x) (simp_all add: mpfr_regular_p_def)
  from y obtain s2 m2 e2 where yf: "y = Fin s2 m2 e2"
    by (cases y) (simp_all add: mpfr_regular_p_def)
  have "mpfr_value x + mpfr_value y = 0 \<or> mpfr_value x - mpfr_value y = 0"
    using z
  proof
    assume "mpfr_sgn (rnum (mpfr_add E (prec + mpc_ceil_log2 prec + 5) x y MPFR_RNDA)) = 0"
    then show ?thesis
      using add_fin_zero_value [of E _ s1 m1 e1 s2 m2 e2] by (simp add: xf yf)
  next
    assume "mpfr_sgn (rnum (mpfr_sub E (prec + mpc_ceil_log2 prec + 5) x y MPFR_RNDA)) = 0"
    then have "mpfr_value (Fin s1 m1 e1) + mpfr_value (Fin (\<not> s2) m2 e2) = 0"
      using add_fin_zero_value [of E _ s1 m1 e1 "\<not> s2" m2 e2] by (simp add: xf yf mpfr_sub_def)
    then show ?thesis
      using mpfr_value_neg [of "Fin s2 m2 e2"] by (simp add: xf yf)
  qed
  then have "(mpfr_value x + mpfr_value y) * (mpfr_value x - mpfr_value y) = 0"
    by auto
  then have val: "mpfr_value x * mpfr_value x - mpfr_value y * mpfr_value y = 0"
    by (simp add: algebra_simps)
  have "sqr_pass E cr p_re rnd_re x y (prec + mpc_ceil_log2 prec + 5) = Stop (Zero False, 0)"
    using z by (auto simp: sqr_pass_def Let_def mpfr_set_ui_def rnum_def)
  then have "sqr_loop E cr p_re rnd_re x y prec = Some (Returns (Zero False, 0))"
    by (rule sqr_loop_Stop)
  with val show ?thesis by simp
qed

theorem sqr_loop_exact_zero_witness:
  "mpfr_regular_p (Fin False 3 5) \<and> mpfr_regular_p (Fin True 3 5) \<and>
   (mpfr_sgn (rnum (mpfr_add widest_env (53 + mpc_ceil_log2 53 + 5) (Fin False 3 5) (Fin True 3 5)
       MPFR_RNDA)) = 0 \<or>
    mpfr_sgn (rnum (mpfr_sub widest_env (53 + mpc_ceil_log2 53 + 5) (Fin False 3 5) (Fin True 3 5)
       MPFR_RNDA)) = 0) \<and>
   mpfr_value (Fin False 3 5) * mpfr_value (Fin False 3 5)
     - mpfr_value (Fin True 3 5) * mpfr_value (Fin True 3 5) = 0 \<and>
   sqr_loop widest_env never_round 53 MPFR_RNDN (Fin False 3 5) (Fin True 3 5) 53
     = Some (Returns (Zero False, 0))"
proof -
  have a: "mpfr_regular_p (Fin False 3 5)" and b: "mpfr_regular_p (Fin True 3 5)"
    by (simp_all add: mpfr_regular_p_def)
  have c: "mpfr_sgn (rnum (mpfr_add widest_env (53 + mpc_ceil_log2 53 + 5) (Fin False 3 5)
       (Fin True 3 5) MPFR_RNDA)) = 0 \<or>
    mpfr_sgn (rnum (mpfr_sub widest_env (53 + mpc_ceil_log2 53 + 5) (Fin False 3 5) (Fin True 3 5)
       MPFR_RNDA)) = 0"
    by (simp add: sqr_eval round_eval mpc_eval)
  from sqr_loop_exact_zero [OF a b c, of never_round 53 MPFR_RNDN]
  show ?thesis using a b c by simp
qed

section \<open>Termination of the loop\<close>

subsection \<open>When the sums do not underflow, the loop ends\<close>

text \<open>Once the working precision holds \<open>x + y\<close>, \<open>x - y\<close> and their product exactly, a pass
  in which neither sum underflows leaves the loop: through the zero test, through an infinite
  product, through a product of exponent \<open>emin\<close>, or with \<open>inexact = 0\<close>.  So the loop returns
  (a result or the abort at line 297), whatever \<open>mpfr_can_round\<close> answers.\<close>

lemma sqr_pass_exits_zero:
  assumes "mpfr_sgn (rnum (mpfr_add E prec x y MPFR_RNDA)) = 0 \<or>
           mpfr_sgn (rnum (mpfr_sub E prec x y MPFR_RNDA)) = 0"
  shows "sqr_pass E cr p_re rnd_re x y prec \<noteq> Again"
  using assms unfolding sqr_pass_def Let_def store_if_ok_def
  by (auto split: if_splits)

lemma sqr_pass_exits_product:
  assumes "ru = mpfr_add E prec x y MPFR_RNDA" and "rv = mpfr_sub E prec x y MPFR_RNDA"
    and "rnd = (if mpfr_sgn (rnum ru) * mpfr_sgn (rnum rv) > 0 then MPFR_RNDU else MPFR_RNDD)"
    and "rm = mpfr_mul E prec (rnum ru) (rnum rv) rnd"
    and "mpfr_inf_p (rnum rm) \<or> mpfr_get_exp (rnum rm) = emin E \<or>
         (rinex ru OR rinex rv) OR rinex rm = 0"
  shows "sqr_pass E cr p_re rnd_re x y prec \<noteq> Again"
  using assms(5) unfolding sqr_pass_def Let_def store_if_ok_def assms(1-4)
  by (auto split: if_splits)

lemma round_fin_away_fits:
  assumes "bitlen m \<le> p" and "\<not> runderflow (round_fin E p MPFR_RNDA s m e)"
  shows "round_fin E p MPFR_RNDA s m e = (Inf s, ternary s True, False) \<or>
         round_fin E p MPFR_RNDA s m e = (mk_fin s m e, 0, False)"
  using assms(2) unfolding round_fin_fits [OF assms(1)]
  by (auto simp: runderflow_def mpfr_overflow_def split: if_splits)

lemma round_fin_directed_fits:
  assumes "bitlen m \<le> p" and "rnd = (if s then MPFR_RNDD else MPFR_RNDU)"
  shows "mpfr_inf_p (rnum (round_fin E p rnd s m e)) \<or>
         mpfr_get_exp (rnum (round_fin E p rnd s m e)) = emin E \<or>
         rinex (round_fin E p rnd s m e) = 0"
  unfolding round_fin_fits [OF assms(1)] using assms(2)
  by (auto simp: rnum_def rinex_def mpfr_overflow_def mpfr_underflow_def underflow_rnd_def
      mpfr_setmin_def bitlen_eval)

lemma mpfr_mul_Inf_left: "mpfr_sgn v \<noteq> 0 \<Longrightarrow> mpfr_inf_p (rnum (mpfr_mul E p (Inf s) v rnd))"
  by (cases v) (simp_all add: rnum_def)

lemma mpfr_mul_Inf_right: "mpfr_sgn u \<noteq> 0 \<Longrightarrow> mpfr_inf_p (rnum (mpfr_mul E p u (Inf s) rnd))"
  by (cases u) (simp_all add: rnum_def)

lemma sgn_mk_fin: "mpfr_sgn (mk_fin s m e) = (if s then - 1 else 1)"
  by (simp add: mk_fin_def split: prod.splits)

lemma mk_fin_oddify: "mk_fin s m e = Fin s (fst (oddify m e)) (snd (oddify m e))"
  by (simp add: mk_fin_def split: prod.splits)

lemma sqr_pass_exact_exits:
  fixes s1 s2 :: bool and m1 m2 :: nat and e1 e2 :: int
  defines "e0 \<equiv> min e1 e2"
  defines "cu \<equiv> smant s1 m1 * 2 ^ nat (e1 - e0) + smant s2 m2 * 2 ^ nat (e2 - e0)"
  defines "cv \<equiv> smant s1 m1 * 2 ^ nat (e1 - e0) + smant (\<not> s2) m2 * 2 ^ nat (e2 - e0)"
  assumes bu: "bitlen (nat \<bar>cu\<bar>) \<le> prec" and bv: "bitlen (nat \<bar>cv\<bar>) \<le> prec"
    and bm: "bitlen (fst (oddify (nat \<bar>cu\<bar>) e0) * fst (oddify (nat \<bar>cv\<bar>) e0)) \<le> prec"
    and nu: "\<not> runderflow (mpfr_add E prec (Fin s1 m1 e1) (Fin s2 m2 e2) MPFR_RNDA)"
    and nv: "\<not> runderflow (mpfr_sub E prec (Fin s1 m1 e1) (Fin s2 m2 e2) MPFR_RNDA)"
  shows "sqr_pass E cr p_re rnd_re (Fin s1 m1 e1) (Fin s2 m2 e2) prec \<noteq> Again"
proof -
  define ru where "ru = mpfr_add E prec (Fin s1 m1 e1) (Fin s2 m2 e2) MPFR_RNDA"
  define rv where "rv = mpfr_sub E prec (Fin s1 m1 e1) (Fin s2 m2 e2) MPFR_RNDA"
  have ru_eq: "ru = (if cu = 0 then (Zero False, 0, False)
                     else round_fin E prec MPFR_RNDA (cu < 0) (nat \<bar>cu\<bar>) e0)"
    by (simp add: ru_def add_fin_def Let_def cu_def e0_def)
  have rv_eq: "rv = (if cv = 0 then (Zero False, 0, False)
                     else round_fin E prec MPFR_RNDA (cv < 0) (nat \<bar>cv\<bar>) e0)"
    by (simp add: rv_def mpfr_sub_def add_fin_def Let_def cv_def e0_def)
  show ?thesis
  proof (cases "cu = 0 \<or> cv = 0")
    case True
    then have "mpfr_sgn (rnum ru) = 0 \<or> mpfr_sgn (rnum rv) = 0"
      by (auto simp: ru_eq rv_eq rnum_def)
    then show ?thesis
      unfolding ru_def rv_def by (rule sqr_pass_exits_zero)
  next
    case False
    then have cu0: "cu \<noteq> 0" and cv0: "cv \<noteq> 0" by auto
    have ru': "ru = round_fin E prec MPFR_RNDA (cu < 0) (nat \<bar>cu\<bar>) e0"
      and rv': "rv = round_fin E prec MPFR_RNDA (cv < 0) (nat \<bar>cv\<bar>) e0"
      using cu0 cv0 by (simp_all add: ru_eq rv_eq)
    have fu: "ru = (Inf (cu < 0), ternary (cu < 0) True, False) \<or>
              ru = (mk_fin (cu < 0) (nat \<bar>cu\<bar>) e0, 0, False)"
    proof -
      have "\<not> runderflow ru" using nu by (simp add: ru_def)
      then show ?thesis unfolding ru' by (rule round_fin_away_fits [OF bu])
    qed
    have fv: "rv = (Inf (cv < 0), ternary (cv < 0) True, False) \<or>
              rv = (mk_fin (cv < 0) (nat \<bar>cv\<bar>) e0, 0, False)"
    proof -
      have "\<not> runderflow rv" using nv by (simp add: rv_def)
      then show ?thesis unfolding rv' by (rule round_fin_away_fits [OF bv])
    qed
    have su: "mpfr_sgn (rnum ru) \<noteq> 0" and sv: "mpfr_sgn (rnum rv) \<noteq> 0"
      using fu fv by (auto simp: rnum_def sgn_mk_fin split: if_splits)
    define rnd where "rnd = (if mpfr_sgn (rnum ru) * mpfr_sgn (rnum rv) > 0 then MPFR_RNDU else MPFR_RNDD)"
    define rm where "rm = mpfr_mul E prec (rnum ru) (rnum rv) rnd"
    have "mpfr_inf_p (rnum rm) \<or> mpfr_get_exp (rnum rm) = emin E \<or>
          (rinex ru OR rinex rv) OR rinex rm = 0"
    proof (cases "mpfr_inf_p (rnum ru) \<or> mpfr_inf_p (rnum rv)")
      case True
      then have "mpfr_inf_p (rnum rm)"
      proof
        assume "mpfr_inf_p (rnum ru)"
        then obtain s where "rnum ru = Inf s" by (cases "rnum ru") simp_all
        then show ?thesis using mpfr_mul_Inf_left [OF sv] by (simp add: rm_def)
      next
        assume "mpfr_inf_p (rnum rv)"
        then obtain s where "rnum rv = Inf s" by (cases "rnum rv") simp_all
        then show ?thesis using mpfr_mul_Inf_right [OF su] by (simp add: rm_def)
      qed
      then show ?thesis by simp
    next
      case False
      with fu fv have u: "ru = (mk_fin (cu < 0) (nat \<bar>cu\<bar>) e0, 0, False)"
        and v: "rv = (mk_fin (cv < 0) (nat \<bar>cv\<bar>) e0, 0, False)"
        by (auto simp: rnum_def)
      define mu where "mu = fst (oddify (nat \<bar>cu\<bar>) e0)"
      define mv where "mv = fst (oddify (nat \<bar>cv\<bar>) e0)"
      define eu where "eu = snd (oddify (nat \<bar>cu\<bar>) e0)"
      define ev where "ev = snd (oddify (nat \<bar>cv\<bar>) e0)"
      have nu': "rnum ru = Fin (cu < 0) mu eu" and nv': "rnum rv = Fin (cv < 0) mv ev"
        by (simp_all add: u v rnum_def mk_fin_oddify mu_def mv_def eu_def ev_def)
      have rnd': "rnd = (if (cu < 0) \<noteq> (cv < 0) then MPFR_RNDD else MPFR_RNDU)"
        by (auto simp: rnd_def nu' nv')
      have rm': "rm = round_fin E prec rnd ((cu < 0) \<noteq> (cv < 0)) (mu * mv) (eu + ev)"
        by (simp add: rm_def nu' nv')
      have "bitlen (mu * mv) \<le> prec" using bm by (simp add: mu_def mv_def)
      from round_fin_directed_fits [OF this rnd', of E "eu + ev"]
      have "mpfr_inf_p (rnum rm) \<or> mpfr_get_exp (rnum rm) = emin E \<or> rinex rm = 0"
        by (simp add: rm')
      moreover have "rinex ru = 0" "rinex rv = 0" by (simp_all add: u v rinex_def)
      ultimately show ?thesis by auto
    qed
    then show ?thesis
      by (rule sqr_pass_exits_product [OF ru_def rv_def rnd_def rm_def])
  qed
qed

lemma sqr_loop_returns_from:
  assumes exits: "\<And>prec. B \<le> prec \<Longrightarrow> sqr_pass E cr p_re rnd_re x y prec \<noteq> Again"
  shows "\<exists>r. sqr_loop E cr p_re rnd_re x y prec = Some r"
proof (induction "B - prec" arbitrary: prec rule: less_induct)
  case less
  define next_prec where "next_prec = prec + mpc_ceil_log2 prec + 5"
  show ?case
  proof (cases "sqr_pass E cr p_re rnd_re x y next_prec")
    case (Stop r)
    then show ?thesis using sqr_loop_Stop [of E cr p_re rnd_re x y prec r]
      by (simp add: next_prec_def)
  next
    case Fail
    then show ?thesis using sqr_loop_Fail [of E cr p_re rnd_re x y prec]
      by (simp add: next_prec_def)
  next
    case Again
    with exits [of next_prec] have "next_prec < B" by (cases "B \<le> next_prec") auto
    moreover have "prec < next_prec" by (simp add: next_prec_def)
    ultimately have "B - next_prec < B - prec" by simp
    from less [OF this] obtain r where "sqr_loop E cr p_re rnd_re x y next_prec = Some r" ..
    then show ?thesis
      using sqr_loop_Again [of E cr p_re rnd_re x y prec] Again
      by (simp add: next_prec_def)
  qed
qed

lemma sqr_loop_terminates:
  assumes x: "mpfr_regular_p x" and y: "mpfr_regular_p y"
    and nu: "\<And>p. \<not> runderflow (mpfr_add E p x y MPFR_RNDA)"
    and nv: "\<And>p. \<not> runderflow (mpfr_sub E p x y MPFR_RNDA)"
  shows "\<exists>r. sqr_loop E cr p_re rnd_re x y prec = Some r"
proof -
  from x obtain s1 m1 e1 where xf: "x = Fin s1 m1 e1"
    by (cases x) (simp_all add: mpfr_regular_p_def)
  from y obtain s2 m2 e2 where yf: "y = Fin s2 m2 e2"
    by (cases y) (simp_all add: mpfr_regular_p_def)
  define e0 where "e0 = min e1 e2"
  define cu where "cu = smant s1 m1 * 2 ^ nat (e1 - e0) + smant s2 m2 * 2 ^ nat (e2 - e0)"
  define cv where "cv = smant s1 m1 * 2 ^ nat (e1 - e0) + smant (\<not> s2) m2 * 2 ^ nat (e2 - e0)"
  define B where "B = max (bitlen (nat \<bar>cu\<bar>)) (max (bitlen (nat \<bar>cv\<bar>))
      (bitlen (fst (oddify (nat \<bar>cu\<bar>) e0) * fst (oddify (nat \<bar>cv\<bar>) e0))))"
  have "sqr_pass E cr p_re rnd_re x y p \<noteq> Again" if "B \<le> p" for p
    unfolding xf yf
    by (rule sqr_pass_exact_exits)
      (use that nu [of p] nv [of p] in \<open>simp_all add: B_def cu_def cv_def e0_def xf yf\<close>)
  then show ?thesis by (rule sqr_loop_returns_from)
qed

subsection \<open>When the precisions are within the exponent range, the loop ends\<close>

text \<open>A sum \<open>x + y\<close> or \<open>x - y\<close> can only underflow when \<open>x\<close> or \<open>y\<close> has bits below the
  smallest number.  If the precisions of the operand are at most \<open>1 - emin\<close>, as they are for
  every precision up to \<open>2^62\<close> in the widest exponent range, the exponents of \<open>x\<close> and \<open>y\<close> are then at
  most 0, the other sum has an exponent of at most 1, and the product with the smallest number,
  rounded away from zero, underflows or has the exponent \<open>emin\<close>: the pass leaves the loop.  So
  \<open>mpc_sqr\<close> returns a result or aborts at line 297, whatever \<open>mpfr_can_round\<close> answers.\<close>

lemma bitlen_upper: "m < 2 ^ bitlen m"
  using bitlen_le_iff [of m "bitlen m"] by simp

lemma bitlen_mult_pow2: "0 < m \<Longrightarrow> bitlen (m * 2 ^ k) = bitlen m + k"
proof (induction k)
  case 0
  then show ?case by simp
next
  case (Suc k)
  have "m * 2 ^ Suc k = 2 * (m * 2 ^ k)" by simp
  moreover have "0 < m * 2 ^ k" using Suc.prems by simp
  ultimately show ?case using Suc by (simp only: bitlen_double)
qed

lemma bitlen_add_le: "bitlen (a + b) \<le> max (bitlen a) (bitlen b) + 1"
proof -
  define M where "M = max (bitlen a) (bitlen b)"
  have "a < 2 ^ bitlen a" "b < 2 ^ bitlen b" by (rule bitlen_upper)+
  moreover have "(2::nat) ^ bitlen a \<le> 2 ^ M" "(2::nat) ^ bitlen b \<le> 2 ^ M"
    by (simp_all add: M_def power_increasing)
  ultimately have "a < 2 ^ M" "b < 2 ^ M" by linarith+
  then have "a + b < 2 ^ (M + 1)" by simp
  then show ?thesis unfolding M_def [symmetric] by (simp only: bitlen_le_iff)
qed

lemma bitlen_less_imp_less: "bitlen a < bitlen b \<Longrightarrow> a < b"
proof -
  assume l: "bitlen a < bitlen b"
  then have b0: "0 < b" using bitlen_eq_0_iff [of b] by (cases "b = 0") auto
  have "a < 2 ^ bitlen a" by (rule bitlen_upper)
  also have "(2::nat) ^ bitlen a \<le> 2 ^ (bitlen b - 1)" using l by (intro power_increasing) simp_all
  also have "\<dots> \<le> b" by (rule bitlen_lower [OF b0])
  finally show ?thesis .
qed

lemma underflow_sums_small:
  fixes X Y A p :: nat and e0 emn :: int
  assumes X: "emn \<le> e0 + int (bitlen X)" and Y: "emn \<le> e0 + int (bitlen Y)"
    and low: "bitlen X \<le> p \<or> bitlen Y \<le> p" and p: "int p \<le> 1 - emn"
    and A: "A = X + Y \<or> A = nat \<bar>int X - int Y\<bar>" and A0: "A \<noteq> 0"
    and uf: "e0 + int (bitlen A) < emn"
  shows "e0 + int (bitlen (X + Y)) \<le> 1"
proof -
  have "bitlen X \<le> bitlen (X + Y)" by (rule bitlen_mono) simp
  with X uf have "A \<noteq> X + Y" by auto
  with A have D: "A = nat \<bar>int X - int Y\<bar>" by simp
  have "0 < bitlen A" using A0 by (simp add: bitlen_pos)
  with uf have e0: "e0 \<le> emn - 2" by simp
  have "bitlen A < bitlen X" "bitlen A < bitlen Y" using X Y uf by simp_all
  then have AX: "A < X" and AY: "A < Y" by (simp_all add: bitlen_less_imp_less)
  have YX: "Y \<le> X + A" and XY: "X \<le> Y + A" using D by simp_all
  have both: "e0 + int (bitlen X) \<le> 0 \<and> e0 + int (bitlen Y) \<le> 0"
    using low
  proof
    assume l: "bitlen X \<le> p"
    then have x: "e0 + int (bitlen X) \<le> - 1" using e0 p by simp
    have "Y \<le> 2 * X" using YX AX by simp
    then have "bitlen Y \<le> bitlen (2 * X)" by (rule bitlen_mono)
    also have "\<dots> = Suc (bitlen X)" using AX by (intro bitlen_double) simp
    finally show ?thesis using x by simp
  next
    assume l: "bitlen Y \<le> p"
    then have y: "e0 + int (bitlen Y) \<le> - 1" using e0 p by simp
    have "X \<le> 2 * Y" using XY AY by simp
    then have "bitlen X \<le> bitlen (2 * Y)" by (rule bitlen_mono)
    also have "\<dots> = Suc (bitlen Y)" using AY by (intro bitlen_double) simp
    finally show ?thesis using y by simp
  qed
  have "bitlen (X + Y) \<le> max (bitlen X) (bitlen Y) + 1" by (rule bitlen_add_le)
  with both show ?thesis by (cases "bitlen X \<le> bitlen Y") (simp_all add: max_def)
qed

lemma get_exp_mk_fin: "0 < m \<Longrightarrow> mpfr_get_exp (mk_fin s m e) = e + int (bitlen m)"
proof -
  assume m: "0 < m"
  obtain m' e' where o: "oddify m e = (m', e')" by (cases "oddify m e")
  from oddify_props [OF m o] have "e' + int (bitlen m') = e + int (bitlen m)" by simp
  then show ?thesis by (simp add: mk_fin_def o)
qed

lemma bitlen_oddify_le: "bitlen (fst (oddify m e)) \<le> bitlen m"
proof (cases "m = 0")
  case True
  then show ?thesis by (simp add: oddify.simps)
next
  case False
  obtain m' e' where o: "oddify m e = (m', e')" by (cases "oddify m e")
  from False oddify_props [OF _ o] have eq: "m = m' * 2 ^ nat (e' - e)" by simp
  have "m' \<le> m" by (subst eq) simp
  then show ?thesis using o by (simp add: bitlen_mono)
qed

lemma oddify_pos: "0 < m \<Longrightarrow> 0 < fst (oddify m e)"
proof -
  assume m: "0 < m"
  obtain m' e' where o: "oddify m e = (m', e')" by (cases "oddify m e")
  from oddify_props [OF m o] have "odd m'" by simp
  then show ?thesis using o by (auto elim: oddE)
qed

lemma round_fin_away_cases:
  assumes "bitlen m \<le> p"
  shows "round_fin E p MPFR_RNDA s m e = (Inf s, ternary s True, False) \<or>
         round_fin E p MPFR_RNDA s m e = (mpfr_setmin E s, ternary s True, True) \<and>
           e + int (bitlen m) < emin E \<or>
         round_fin E p MPFR_RNDA s m e = (mk_fin s m e, 0, False) \<and>
           emin E \<le> e + int (bitlen m)"
  unfolding round_fin_fits [OF assms]
  by (auto simp: mpfr_overflow_def mpfr_underflow_def underflow_rnd_def)

text \<open>The product of the smallest number and a number of exponent at most 1, rounded away
  from zero: it is infinite or has the exponent \<open>emin\<close>.\<close>

lemma mul_setmin_small:
  assumes b: "0 < mb" "bitlen mb \<le> prec" "eb + int (bitlen mb) \<le> 1"
    and rnd: "rnd = (if sa \<noteq> sb then MPFR_RNDD else MPFR_RNDU)"
  shows "mpfr_inf_p (rnum (mpfr_mul E prec (mpfr_setmin E sa) (Fin sb mb eb) rnd)) \<or>
         mpfr_get_exp (rnum (mpfr_mul E prec (mpfr_setmin E sa) (Fin sb mb eb) rnd)) = emin E"
    and "mpfr_inf_p (rnum (mpfr_mul E prec (Fin sb mb eb) (mpfr_setmin E sa) rnd)) \<or>
         mpfr_get_exp (rnum (mpfr_mul E prec (Fin sb mb eb) (mpfr_setmin E sa) rnd)) = emin E"
proof -
  have r: "round_fin E prec rnd s mb (emin E - 1 + eb) =
      (if emin E - 1 + eb + int (bitlen mb) > emax E then
         (fst (mpfr_overflow E prec rnd s), snd (mpfr_overflow E prec rnd s), False)
       else if emin E - 1 + eb + int (bitlen mb) < emin E then
         (fst (mpfr_underflow E (underflow_rnd E rnd mb (emin E - 1 + eb)) s),
          snd (mpfr_underflow E (underflow_rnd E rnd mb (emin E - 1 + eb)) s), True)
       else (mk_fin s mb (emin E - 1 + eb), 0, False))" for s
    by (rule round_fin_fits [OF b(2)])
  have away: "rnd_away rnd (sa \<noteq> sb)" "rnd \<noteq> MPFR_RNDN" using rnd by auto
  have goal: "mpfr_inf_p (rnum (round_fin E prec rnd (sa \<noteq> sb) mb (emin E - 1 + eb))) \<or>
      mpfr_get_exp (rnum (round_fin E prec rnd (sa \<noteq> sb) mb (emin E - 1 + eb))) = emin E"
    unfolding r using away b(1,3)
    by (auto simp: rnum_def mpfr_overflow_def mpfr_underflow_def underflow_rnd_def
        mpfr_setmin_def bitlen_eval get_exp_mk_fin)
  show "mpfr_inf_p (rnum (mpfr_mul E prec (mpfr_setmin E sa) (Fin sb mb eb) rnd)) \<or>
         mpfr_get_exp (rnum (mpfr_mul E prec (mpfr_setmin E sa) (Fin sb mb eb) rnd)) = emin E"
    using goal by (simp add: mpfr_setmin_def)
  have "(sb \<noteq> sa) = (sa \<noteq> sb)" by auto
  then show "mpfr_inf_p (rnum (mpfr_mul E prec (Fin sb mb eb) (mpfr_setmin E sa) rnd)) \<or>
         mpfr_get_exp (rnum (mpfr_mul E prec (Fin sb mb eb) (mpfr_setmin E sa) rnd)) = emin E"
    using goal by (simp add: mpfr_setmin_def add.commute add.left_commute)
qed

lemma abs_sum_cases:
  "nat \<bar>smant s1 m1 * 2 ^ a + smant s2 m2 * 2 ^ b\<bar> =
     (if s1 = s2 then m1 * 2 ^ a + m2 * 2 ^ b
      else nat \<bar>int (m1 * 2 ^ a) - int (m2 * 2 ^ b)\<bar>)"
proof -
  define X where "X = m1 * 2 ^ a"
  define Y where "Y = m2 * 2 ^ b"
  have x: "smant s1 m1 * 2 ^ a = (if s1 then - int X else int X)"
    and y: "smant s2 m2 * 2 ^ b = (if s2 then - int Y else int Y)"
    by (simp_all add: smant_def X_def Y_def)
  show ?thesis
    unfolding x y X_def [symmetric] Y_def [symmetric]
    by (cases s1; cases s2; simp; linarith?)
qed

lemma mk_fin_small:
  assumes "0 < m" "bitlen m \<le> prec" "e + int (bitlen m) \<le> 1"
  shows "\<exists>m' e'. mk_fin s m e = Fin s m' e' \<and> 0 < m' \<and> bitlen m' \<le> prec \<and>
           e' + int (bitlen m') \<le> 1"
proof -
  obtain m' e' where o: "oddify m e = (m', e')" by (cases "oddify m e")
  from oddify_props [OF assms(1) o] have "e' + int (bitlen m') = e + int (bitlen m)" by simp
  moreover have "0 < m'" using oddify_pos [OF assms(1), of e] o by simp
  moreover have "bitlen m' \<le> bitlen m" using bitlen_oddify_le [of m e] o by simp
  ultimately show ?thesis using assms o by (auto simp: mk_fin_def)
qed

lemma sqr_pass_bounded_exits:
  fixes s1 s2 :: bool and m1 m2 :: nat and e1 e2 :: int
  defines "e0 \<equiv> min e1 e2"
  defines "cu \<equiv> smant s1 m1 * 2 ^ nat (e1 - e0) + smant s2 m2 * 2 ^ nat (e2 - e0)"
  defines "cv \<equiv> smant s1 m1 * 2 ^ nat (e1 - e0) + smant (\<not> s2) m2 * 2 ^ nat (e2 - e0)"
  assumes x: "representable E px (Fin s1 m1 e1)" and y: "representable E py (Fin s2 m2 e2)"
    and px: "int px \<le> 1 - emin E" and py: "int py \<le> 1 - emin E"
    and bu: "bitlen (nat \<bar>cu\<bar>) \<le> prec" and bv: "bitlen (nat \<bar>cv\<bar>) \<le> prec"
    and bm: "bitlen (fst (oddify (nat \<bar>cu\<bar>) e0) * fst (oddify (nat \<bar>cv\<bar>) e0)) \<le> prec"
  shows "sqr_pass E cr p_re rnd_re (Fin s1 m1 e1) (Fin s2 m2 e2) prec \<noteq> Again"
proof -
  define ru where "ru = mpfr_add E prec (Fin s1 m1 e1) (Fin s2 m2 e2) MPFR_RNDA"
  define rv where "rv = mpfr_sub E prec (Fin s1 m1 e1) (Fin s2 m2 e2) MPFR_RNDA"
  show ?thesis
  proof (cases "runderflow ru \<or> runderflow rv")
    case False
    then have "\<not> runderflow (mpfr_add E prec (Fin s1 m1 e1) (Fin s2 m2 e2) MPFR_RNDA)"
      and "\<not> runderflow (mpfr_sub E prec (Fin s1 m1 e1) (Fin s2 m2 e2) MPFR_RNDA)"
      by (simp_all add: ru_def rv_def)
    with bu bv bm show ?thesis
      unfolding cu_def cv_def e0_def by (intro sqr_pass_exact_exits)
  next
    case under: True
    have ru_eq: "ru = (if cu = 0 then (Zero False, 0, False)
                       else round_fin E prec MPFR_RNDA (cu < 0) (nat \<bar>cu\<bar>) e0)"
      by (simp add: ru_def add_fin_def Let_def cu_def e0_def)
    have rv_eq: "rv = (if cv = 0 then (Zero False, 0, False)
                       else round_fin E prec MPFR_RNDA (cv < 0) (nat \<bar>cv\<bar>) e0)"
      by (simp add: rv_def mpfr_sub_def add_fin_def Let_def cv_def e0_def)
    show ?thesis
    proof (cases "cu = 0 \<or> cv = 0")
      case True
      then have "mpfr_sgn (rnum ru) = 0 \<or> mpfr_sgn (rnum rv) = 0"
        by (auto simp: ru_eq rv_eq rnum_def)
      then show ?thesis
        unfolding ru_def rv_def by (rule sqr_pass_exits_zero)
    next
      case False
      then have cu0: "cu \<noteq> 0" and cv0: "cv \<noteq> 0" by auto
      have ru': "ru = round_fin E prec MPFR_RNDA (cu < 0) (nat \<bar>cu\<bar>) e0"
        and rv': "rv = round_fin E prec MPFR_RNDA (cv < 0) (nat \<bar>cv\<bar>) e0"
        using cu0 cv0 by (simp_all add: ru_eq rv_eq)
      have cu3: "ru = (Inf (cu < 0), ternary (cu < 0) True, False) \<or>
                 ru = (mpfr_setmin E (cu < 0), ternary (cu < 0) True, True) \<and>
                   e0 + int (bitlen (nat \<bar>cu\<bar>)) < emin E \<or>
                 ru = (mk_fin (cu < 0) (nat \<bar>cu\<bar>) e0, 0, False)"
        unfolding ru' using round_fin_away_cases [OF bu, of E "cu < 0" e0] by auto
      have cv3: "rv = (Inf (cv < 0), ternary (cv < 0) True, False) \<or>
                 rv = (mpfr_setmin E (cv < 0), ternary (cv < 0) True, True) \<and>
                   e0 + int (bitlen (nat \<bar>cv\<bar>)) < emin E \<or>
                 rv = (mk_fin (cv < 0) (nat \<bar>cv\<bar>) e0, 0, False)"
        unfolding rv' using round_fin_away_cases [OF bv, of E "cv < 0" e0] by auto
      \<comment> \<open>the magnitudes of \<open>x\<close> and \<open>y\<close> at the common exponent\<close>
      define X where "X = m1 * 2 ^ nat (e1 - e0)"
      define Y where "Y = m2 * 2 ^ nat (e2 - e0)"
      have m1: "0 < m1" "bitlen m1 \<le> px" "emin E \<le> e1 + int (bitlen m1)"
        using x by (auto simp: representable_def elim: oddE)
      have m2: "0 < m2" "bitlen m2 \<le> py" "emin E \<le> e2 + int (bitlen m2)"
        using y by (auto simp: representable_def elim: oddE)
      have bX: "e0 + int (bitlen X) = e1 + int (bitlen m1)"
        by (simp add: X_def bitlen_mult_pow2 [OF m1(1)] e0_def)
      have bY: "e0 + int (bitlen Y) = e2 + int (bitlen m2)"
        by (simp add: Y_def bitlen_mult_pow2 [OF m2(1)] e0_def)
      have low: "bitlen X \<le> max px py \<or> bitlen Y \<le> max px py"
      proof (cases "e1 \<le> e2")
        case True
        then have "X = m1" by (simp add: X_def e0_def)
        with m1(2) show ?thesis by (simp add: max_def)
      next
        case False
        then have "Y = m2" by (simp add: Y_def e0_def)
        with m2(2) show ?thesis by (simp add: max_def)
      qed
      have pmax: "int (max px py) \<le> 1 - emin E" using px py by simp
      have acu: "nat \<bar>cu\<bar> = X + Y \<or> nat \<bar>cu\<bar> = nat \<bar>int X - int Y\<bar>"
        unfolding cu_def X_def Y_def abs_sum_cases by simp
      have acv: "nat \<bar>cv\<bar> = X + Y \<or> nat \<bar>cv\<bar> = nat \<bar>int X - int Y\<bar>"
        unfolding cv_def X_def Y_def abs_sum_cases by simp
      have uf: "e0 + int (bitlen (nat \<bar>cu\<bar>)) < emin E \<or> e0 + int (bitlen (nat \<bar>cv\<bar>)) < emin E"
        using under cu3 cv3 by (auto simp: runderflow_def)
      have S: "e0 + int (bitlen (X + Y)) \<le> 1"
        using uf
      proof
        assume "e0 + int (bitlen (nat \<bar>cu\<bar>)) < emin E"
        then show ?thesis
          using cu0 by (intro underflow_sums_small [OF _ _ low pmax acu]) (simp_all add: bX bY m1 m2)
      next
        assume "e0 + int (bitlen (nat \<bar>cv\<bar>)) < emin E"
        then show ?thesis
          using cv0 by (intro underflow_sums_small [OF _ _ low pmax acv]) (simp_all add: bX bY m1 m2)
      qed
      have "nat \<bar>int X - int Y\<bar> \<le> X + Y" by linarith
      then have "nat \<bar>cu\<bar> \<le> X + Y" "nat \<bar>cv\<bar> \<le> X + Y" using acu acv by auto
      then have "bitlen (nat \<bar>cu\<bar>) \<le> bitlen (X + Y)" "bitlen (nat \<bar>cv\<bar>) \<le> bitlen (X + Y)"
        by (simp_all add: bitlen_mono)
      with S have su1: "e0 + int (bitlen (nat \<bar>cu\<bar>)) \<le> 1"
        and sv1: "e0 + int (bitlen (nat \<bar>cv\<bar>)) \<le> 1" by simp_all
      have "0 < px" using m1 bitlen_pos [of m1] by simp
      with px have emin0: "emin E \<le> 0" by simp
      have prec: "0 < prec" using bu cu0 bitlen_pos [of "nat \<bar>cu\<bar>"] by simp
      \<comment> \<open>\<open>u\<close> and \<open>v\<close> are infinite or of exponent at most 1, and one is the smallest number\<close>
      have min_small: "\<exists>m e. mpfr_setmin E s = Fin s m e \<and> 0 < m \<and> bitlen m \<le> prec \<and>
          e + int (bitlen m) \<le> 1" for s
        using emin0 prec by (simp add: mpfr_setmin_def bitlen_eval)
      have u_small: "mpfr_inf_p (rnum ru) \<or>
          (\<exists>m e. rnum ru = Fin (cu < 0) m e \<and> 0 < m \<and> bitlen m \<le> prec \<and> e + int (bitlen m) \<le> 1)"
        using cu3 min_small [of "cu < 0"] mk_fin_small [OF _ bu su1, of "cu < 0"] cu0
        by (auto simp: rnum_def)
      have v_small: "mpfr_inf_p (rnum rv) \<or>
          (\<exists>m e. rnum rv = Fin (cv < 0) m e \<and> 0 < m \<and> bitlen m \<le> prec \<and> e + int (bitlen m) \<le> 1)"
        using cv3 mk_fin_small [OF _ bv sv1, of "cv < 0"] min_small [of "cv < 0"] cv0
        by (auto simp: rnum_def)
      have one_min: "rnum ru = mpfr_setmin E (cu < 0) \<or> rnum rv = mpfr_setmin E (cv < 0)"
        using under cu3 cv3 by (auto simp: runderflow_def rnum_def)
      have su: "mpfr_sgn (rnum ru) \<noteq> 0" and sv: "mpfr_sgn (rnum rv) \<noteq> 0"
        using u_small v_small by (auto elim!: mpfr_inf_p.elims split: if_splits)
      define rnd where
        "rnd = (if mpfr_sgn (rnum ru) * mpfr_sgn (rnum rv) > 0 then MPFR_RNDU else MPFR_RNDD)"
      define rm where "rm = mpfr_mul E prec (rnum ru) (rnum rv) rnd"
      have "mpfr_inf_p (rnum rm) \<or> mpfr_get_exp (rnum rm) = emin E"
      proof (cases "mpfr_inf_p (rnum ru) \<or> mpfr_inf_p (rnum rv)")
        case True
        then have "mpfr_inf_p (rnum rm)"
        proof
          assume "mpfr_inf_p (rnum ru)"
          then obtain s where "rnum ru = Inf s" by (cases "rnum ru") simp_all
          then show ?thesis using mpfr_mul_Inf_left [OF sv] by (simp add: rm_def)
        next
          assume "mpfr_inf_p (rnum rv)"
          then obtain s where "rnum rv = Inf s" by (cases "rnum rv") simp_all
          then show ?thesis using mpfr_mul_Inf_right [OF su] by (simp add: rm_def)
        qed
        then show ?thesis by simp
      next
        case False
        with u_small v_small obtain mu eu mv ev
          where u: "rnum ru = Fin (cu < 0) mu eu" "0 < mu" "bitlen mu \<le> prec"
              "eu + int (bitlen mu) \<le> 1"
            and v: "rnum rv = Fin (cv < 0) mv ev" "0 < mv" "bitlen mv \<le> prec"
              "ev + int (bitlen mv) \<le> 1"
          by auto
        have rnd': "rnd = (if (cu < 0) \<noteq> (cv < 0) then MPFR_RNDD else MPFR_RNDU)"
          by (auto simp: rnd_def u v)
        have rnd'': "rnd = (if (cv < 0) \<noteq> (cu < 0) then MPFR_RNDD else MPFR_RNDU)"
          by (auto simp: rnd')
        from one_min show ?thesis
        proof
          assume "rnum ru = mpfr_setmin E (cu < 0)"
          then show ?thesis
            using mul_setmin_small(1) [OF v(2-4) rnd', of E] by (simp add: rm_def v(1))
        next
          assume "rnum rv = mpfr_setmin E (cv < 0)"
          then show ?thesis
            using mul_setmin_small(2) [OF u(2-4) rnd'', of E] by (simp add: rm_def u(1))
        qed
      qed
      then have "mpfr_inf_p (rnum rm) \<or> mpfr_get_exp (rnum rm) = emin E \<or>
          (rinex ru OR rinex rv) OR rinex rm = 0" by auto
      then show ?thesis
        by (rule sqr_pass_exits_product [OF ru_def rv_def rnd_def rm_def])
    qed
  qed
qed

lemma sqr_loop_terminates_bounded:
  assumes x: "mpfr_regular_p x" "representable E px x"
    and y: "mpfr_regular_p y" "representable E py y"
    and px: "int px \<le> 1 - emin E" and py: "int py \<le> 1 - emin E"
  shows "\<exists>r. sqr_loop E cr p_re rnd_re x y prec = Some r"
proof -
  from x(1) obtain s1 m1 e1 where xf: "x = Fin s1 m1 e1"
    by (cases x) (simp_all add: mpfr_regular_p_def)
  from y(1) obtain s2 m2 e2 where yf: "y = Fin s2 m2 e2"
    by (cases y) (simp_all add: mpfr_regular_p_def)
  define e0 where "e0 = min e1 e2"
  define cu where "cu = smant s1 m1 * 2 ^ nat (e1 - e0) + smant s2 m2 * 2 ^ nat (e2 - e0)"
  define cv where "cv = smant s1 m1 * 2 ^ nat (e1 - e0) + smant (\<not> s2) m2 * 2 ^ nat (e2 - e0)"
  define B where "B = max (bitlen (nat \<bar>cu\<bar>)) (max (bitlen (nat \<bar>cv\<bar>))
      (bitlen (fst (oddify (nat \<bar>cu\<bar>) e0) * fst (oddify (nat \<bar>cv\<bar>) e0))))"
  have "sqr_pass E cr p_re rnd_re x y p \<noteq> Again" if "B \<le> p" for p
    unfolding xf yf
    by (rule sqr_pass_bounded_exits [OF x(2) [unfolded xf] y(2) [unfolded yf] px py])
      (use that in \<open>simp_all add: B_def cu_def cv_def e0_def\<close>)
  then show ?thesis by (rule sqr_loop_returns_from)
qed

lemma mpc_sqr_returns_or_aborts:
  assumes ok: "mpc_ok E (h op)"
    and pr: "int (MPC_PREC_RE (h op)) \<le> 1 - emin E"
    and pi: "int (MPC_PREC_IM (h op)) \<le> 1 - emin E"
  shows "\<exists>r. mpc_sqr E cr h rop op rnd = Some r"
proof (cases "mpc_fin_p (h op) \<and> \<not> mpfr_zero_p (ld_im h op) \<and> \<not> mpfr_zero_p (ld_re h op)")
  case False
  then show ?thesis by (auto simp: mpc_sqr_def)
next
  case True
  have rx: "representable E (MPC_PREC_RE (h op)) (ld_re h op)"
    and ry: "representable E (MPC_PREC_IM (h op)) (ld_im h op)"
    using ok by (simp_all add: mpc_ok_def mpfr_ok_def ld_re_def ld_im_def MPC_PREC_RE_def
        MPC_PREC_IM_def)
  have x: "mpfr_regular_p (ld_re h op)"
    using True rx by (cases "ld_re h op")
      (auto simp: mpc_fin_p_def ld_re_def mpfr_regular_p_def representable_def elim: oddE)
  have y: "mpfr_regular_p (ld_im h op)"
    using True ry by (cases "ld_im h op")
      (auto simp: mpc_fin_p_def ld_im_def mpfr_regular_p_def representable_def elim: oddE)
  from sqr_loop_terminates_bounded [OF x rx y ry pr pi]
  obtain r where "sqr_loop E cr (MPC_PREC_RE (h rop)) (MPC_RND_RE rnd) (ld_re h op) (ld_im h op)
      (MPC_MAX_PREC (h rop)) = Some r" by blast
  then show ?thesis
    using True
    by (auto simp: mpc_sqr_def sqr_re_def Let_def ld_re_def
        split: option.splits outcome.splits prod.splits)
qed

subsection \<open>When a sum underflows, the loop may not end\<close>

text \<open>The loop does not return when every pass asks for another one.\<close>

lemma sqr_loop_None:
  assumes pass: "\<And>prec. N \<le> prec \<Longrightarrow>
      sqr_pass E cr p rnd x y (prec + mpc_ceil_log2 prec + 5) = Again"
    and N: "N \<le> prec"
  shows "sqr_loop E cr p rnd x y prec = None"
proof (rule ccontr)
  assume "sqr_loop E cr p rnd x y prec \<noteq> None"
  then obtain r where r: "sqr_loop E cr p rnd x y prec = Some r" by auto
  define P where "P = (\<lambda>E' cr' p' rnd' x' y' prec' (r' :: (mpfr_num \<times> int) outcome).
      E' = E \<and> cr' = cr \<and> p' = p \<and> rnd' = rnd \<and> x' = x \<and> y' = y \<longrightarrow> \<not> N \<le> prec')"
  have step: "P E' cr' p' rnd' x' y' prec' r'"
    if IH: "\<And>E' cr' p' rnd' x' y' prec' r'. f E' cr' p' rnd' x' y' prec' = Some r' \<Longrightarrow>
               P E' cr' p' rnd' x' y' prec' r'"
      and body: "(case sqr_pass E' cr' p' rnd' x' y' (prec' + mpc_ceil_log2 prec' + 5) of
                    Stop r \<Rightarrow> Some (Returns r) | Fail \<Rightarrow> Some Aborts
                  | Again \<Rightarrow> f E' cr' p' rnd' x' y' (prec' + mpc_ceil_log2 prec' + 5)) = Some r'"
    for f E' cr' p' rnd' x' y' prec' r'
  proof -
    have False if eq: "E' = E" "cr' = cr" "p' = p" "rnd' = rnd" "x' = x" "y' = y" and n: "N \<le> prec'"
    proof -
      have "f E cr p rnd x y (prec' + mpc_ceil_log2 prec' + 5) = Some r'"
        using body pass [OF n] by (simp add: eq)
      from IH [OF this] n show False by (simp add: P_def)
    qed
    then show ?thesis unfolding P_def by blast
  qed
  have "P E cr p rnd x y prec r"
  proof -
    note ri = sqr_loop.raw_induct [where P = P and xa = "((((((E, cr), p), rnd), x), y), prec)"
        and ya = r, unfolded prod.case]
    show ?thesis
      by (rule ri) (rule step, assumption+, rule r)
  qed
  with N show False by (simp add: P_def)
qed

lemma bitlen_big_raw: "bitlen (2 ^ 151 + 1) = 152"
  by (simp add: bitlen_eval)

lemmas bitlen_big = bitlen_big_raw [simplified]

lemma tiny_diff_pass:
  assumes cr: "\<And>err. \<not> cr (Fin False (2 ^ 151 + 1) (- 251)) err MPFR_RNDU MPFR_RNDZ 201"
    and prec: "152 \<le> prec"
  shows "sqr_pass small_env cr 200 MPFR_RNDN (Fin False (2 ^ 150 + 1) (- 150)) (Fin False 1 0) prec
           = Again"
proof -
  have b1: "bitlen (2 ^ 151 + 1) \<le> prec" using prec by (simp add: bitlen_big)
  have b2: "bitlen 1 \<le> prec" using prec by (simp add: bitlen_eval)
  have u: "mpfr_add small_env prec (Fin False (2 ^ 150 + 1) (- 150)) (Fin False 1 0) MPFR_RNDA
      = (Fin False (2 ^ 151 + 1) (- 150), 0, False)"
    using round_fin_fits [OF b1, of small_env MPFR_RNDA False "- 150"]
    by (simp add: add_fin_def smant_def small_env_def bitlen_big mk_fin_def oddify_eval)
  have v: "mpfr_sub small_env prec (Fin False (2 ^ 150 + 1) (- 150)) (Fin False 1 0) MPFR_RNDA
      = (Fin False 1 (- 101), 1, True)"
    using round_fin_fits [OF b2, of small_env MPFR_RNDA False "- 150"]
    by (simp add: mpfr_sub_def add_fin_def smant_def small_env_def bitlen_eval
        mpfr_underflow_def underflow_rnd_def mpfr_setmin_def ternary_def)
  have w: "mpfr_mul small_env prec (Fin False (2 ^ 151 + 1) (- 150)) (Fin False 1 (- 101)) MPFR_RNDU
      = (Fin False (2 ^ 151 + 1) (- 251), 0, False)"
    using round_fin_fits [OF b1, of small_env MPFR_RNDU False "- 251"]
    by (simp add: small_env_def bitlen_big mk_fin_def oddify_eval)
  show ?thesis
    using u v w cr
    by (simp add: sqr_pass_def Let_def rnum_def rinex_def store_if_ok_def small_env_def
        bitlen_big)
qed

text \<open>
  Claim C8 says that the loop terminates for every finite nonzero operand.  The working
  precision does grow in each pass, by \<open>mpc_ceil_log2 (prec) + 5\<close>, but the loop need not end.
  In the exponent range \<open>[-100, 100]\<close>, for \<open>x = 1 + 2^(-150)\<close> and \<open>y = 1\<close> of precision 200,
  the difference \<open>v = x - y = 2^(-150)\<close> underflows and is rounded away to \<open>2^(-101)\<close> with a
  nonzero flag, so \<open>inexact\<close> is nonzero in every pass, while \<open>u = 2 + 2^(-150)\<close> and the
  product \<open>u * v = 2^(-100) + 2^(-251)\<close> are exact from the first pass on.  The product fits
  the 201 bits asked from \<open>mpfr_can_round\<close>, so the numbers just below it round to another
  value than it does and \<open>mpfr_can_round\<close> answers no at every error bound; this is the
  assumption on \<open>cr\<close>.  Then no pass ends the loop and \<open>mpc_sqr\<close> does not return.
\<close>

theorem mpc_sqr_diverges:
  assumes cr: "\<And>err. \<not> cr (Fin False (2 ^ 151 + 1) (- 251)) err MPFR_RNDU MPFR_RNDZ 201"
  shows "mpc_sqr small_env cr store_tiny_diff 0 1 (MPFR_RNDN, MPFR_RNDN) = None"
proof -
  have "sqr_loop small_env cr 200 MPFR_RNDN (Fin False (2 ^ 150 + 1) (- 150)) (Fin False 1 0) 200
      = None"
  proof (rule sqr_loop_None [where N = 200])
    fix prec :: nat
    assume "200 \<le> prec"
    then have "152 \<le> prec + mpc_ceil_log2 prec + 5" by simp
    with cr show "sqr_pass small_env cr 200 MPFR_RNDN (Fin False (2 ^ 150 + 1) (- 150)) (Fin False 1 0)
        (prec + mpc_ceil_log2 prec + 5) = Again"
      by (intro tiny_diff_pass) auto
  qed simp
  then show ?thesis
    by (simp add: mpc_sqr_def sqr_re_def skewed_def store_tiny_diff_def mpc_eval bitlen_eval)
qed

theorem mpc_sqr_diverges_witness:
  "(\<forall>err. \<not> never_round (Fin False (2 ^ 151 + 1) (- 251)) err MPFR_RNDU MPFR_RNDZ 201) \<and>
   mpc_sqr small_env never_round store_tiny_diff 0 1 (MPFR_RNDN, MPFR_RNDN) = None"
  using mpc_sqr_diverges [of never_round] by (simp add: never_round_def)

section \<open>Output aliasing the input\<close>

text \<open>The real part as a number, before it is stored.\<close>

lemma sqr_re_store:
  "sqr_re E cr h rop op x prec rnd =
     map_option (map_outcome (\<lambda>(z, i). (st_re h rop z, i)))
       (if skewed (h op) then
          Some (Returns (mpfr_fmma E (MPC_PREC_RE (h rop)) x x (im (h op)) (im (h op)) (- 1)
                           (MPC_RND_RE rnd)))
        else sqr_loop E cr (MPC_PREC_RE (h rop)) (MPC_RND_RE rnd) (mval x) (ld_im h op) prec)"
  by (simp add: sqr_re_def split: option.splits outcome.splits prod.splits)

lemma sqr_im_values:
  "ld_re (fst (sqr_im E (st_re h rop z) rop op x rnd)) rop = z"
  "ld_im (fst (sqr_im E (st_re h rop z) rop op x rnd)) rop =
     (let r = mpfr_mul E (MPC_PREC_IM (h rop)) (mval x) (ld_im h op) (MPC_RND_IM rnd)
      in if runderflow r then rnum r
         else rnum (mpfr_mul_2exp E (MPC_PREC_IM (h rop)) (rnum r) 1 (MPC_RND_IM rnd)))"
  "snd (sqr_im E (st_re h rop z) rop op x rnd) =
     (let r = mpfr_mul E (MPC_PREC_IM (h rop)) (mval x) (ld_im h op) (MPC_RND_IM rnd)
      in if runderflow r then rinex r
         else rinex r OR rinex (mpfr_mul_2exp E (MPC_PREC_IM (h rop)) (rnum r) 1 (MPC_RND_IM rnd)))"
  by (simp_all add: sqr_im_def Let_def)

lemma sqr_special_values:
  "ld_re (sqr_special h op op) op = ld_re (sqr_special h r op) r"
  "ld_im (sqr_special h op op) op = ld_im (sqr_special h r op) r"
  by (simp_all add: sqr_special_def Let_def)

lemma sqr_real_axis_values:
  assumes "MPC_PREC_RE (h r) = MPC_PREC_RE (h op)" "MPC_PREC_IM (h r) = MPC_PREC_IM (h op)"
  shows "ld_re (fst (sqr_real_axis E h op op rnd)) op = ld_re (fst (sqr_real_axis E h r op rnd)) r"
    and "ld_im (fst (sqr_real_axis E h op op rnd)) op = ld_im (fst (sqr_real_axis E h r op rnd)) r"
    and "snd (sqr_real_axis E h op op rnd) = snd (sqr_real_axis E h r op rnd)"
  using assms by (simp_all add: sqr_real_axis_def mpc_conj_def Let_def)

lemma sqr_imag_axis_values:
  assumes "MPC_PREC_RE (h r) = MPC_PREC_RE (h op)" "MPC_PREC_IM (h r) = MPC_PREC_IM (h op)"
  shows "ld_re (fst (sqr_imag_axis E h op op rnd)) op = ld_re (fst (sqr_imag_axis E h r op rnd)) r"
    and "ld_im (fst (sqr_imag_axis E h op op rnd)) op = ld_im (fst (sqr_imag_axis E h r op rnd)) r"
    and "snd (sqr_imag_axis E h op op rnd) = snd (sqr_imag_axis E h r op rnd)"
  using assms by (simp_all add: sqr_imag_axis_def mpc_conj_def Let_def)

lemma values_at_Returns:
  "values_at a (Some (Returns hi)) = Some (Returns ((ld_re (fst hi) a, ld_im (fst hi) a), snd hi))"
  by (simp add: values_at_def case_prod_beta)

text \<open>
  Claim C9.  Calling \<open>mpc_sqr\<close> with \<open>rop = op\<close> leaves in the operand the same two numbers,
  and returns the same flags, as calling it with a separate output \<open>r\<close> of the same
  precisions leaves in \<open>r\<close>; if one call aborts or does not return, so does the other.  It
  holds for every operand and every rounding directive.
\<close>

theorem mpc_sqr_alias:
  assumes pr: "MPC_PREC_RE (h r) = MPC_PREC_RE (h op)"
    and pi: "MPC_PREC_IM (h r) = MPC_PREC_IM (h op)"
  shows "values_at op (mpc_sqr E cr h op op rnd) = values_at r (mpc_sqr E cr h r op rnd)"
proof -
  have mp: "MPC_MAX_PREC (h r) = MPC_MAX_PREC (h op)"
    using pr pi by (simp add: MPC_MAX_PREC_def)
  consider (special) "\<not> mpc_fin_p (h op)"
    | (real) "mpc_fin_p (h op)" "mpfr_zero_p (ld_im h op)"
    | (imag) "mpc_fin_p (h op)" "\<not> mpfr_zero_p (ld_im h op)" "mpfr_zero_p (ld_re h op)"
    | (general) "mpc_fin_p (h op)" "\<not> mpfr_zero_p (ld_im h op)" "\<not> mpfr_zero_p (ld_re h op)"
    by blast
  then show ?thesis
  proof cases
    case special
    then show ?thesis
      by (simp add: mpc_sqr_def values_at_Returns sqr_special_values [of h op r])
  next
    case real
    then show ?thesis
      using sqr_real_axis_values [OF pr pi, of E rnd]
      by (simp add: mpc_sqr_def values_at_Returns)
  next
    case imag
    then show ?thesis
      using sqr_imag_axis_values [OF pr pi, of E rnd]
      by (simp add: mpc_sqr_def values_at_Returns)
  next
    case general
    define G where "G = (if skewed (h op) then
          Some (Returns (mpfr_fmma E (MPC_PREC_RE (h op)) (re (h op)) (re (h op)) (im (h op))
                           (im (h op)) (- 1) (MPC_RND_RE rnd)))
        else sqr_loop E cr (MPC_PREC_RE (h op)) (MPC_RND_RE rnd) (mval (re (h op))) (ld_im h op)
               (MPC_MAX_PREC (h op)))"
    have re: "sqr_re E cr h a op (re (h op)) (MPC_MAX_PREC (h a)) rnd =
        map_option (map_outcome (\<lambda>(z, i). (st_re h a z, i))) G"
      if "a = op \<or> a = r" for a
      using that pr mp by (auto simp: sqr_re_store G_def)
    have "values_at a (mpc_sqr E cr h a op rnd) =
        map_option (map_outcome (\<lambda>(z, i).
          ((z, (let r = mpfr_mul E (MPC_PREC_IM (h op)) (mval (re (h op))) (ld_im h op) (MPC_RND_IM rnd)
                in if runderflow r then rnum r
                   else rnum (mpfr_mul_2exp E (MPC_PREC_IM (h op)) (rnum r) 1 (MPC_RND_IM rnd)))),
           MPC_INEX i
             (let r = mpfr_mul E (MPC_PREC_IM (h op)) (mval (re (h op))) (ld_im h op) (MPC_RND_IM rnd)
              in if runderflow r then rinex r
                 else rinex r OR rinex (mpfr_mul_2exp E (MPC_PREC_IM (h op)) (rnum r) 1
                                          (MPC_RND_IM rnd)))))) G"
      if a: "a = op \<or> a = r" for a
    proof -
      have pia: "MPC_PREC_IM (h a) = MPC_PREC_IM (h op)" using a pi by auto
      show ?thesis
      proof (cases G)
        case None
        then show ?thesis
          using general by (simp add: mpc_sqr_def Let_def re [OF a] values_at_def)
      next
        case (Some o1)
        show ?thesis
        proof (cases o1)
          case Aborts
          then show ?thesis
            using general Some by (simp add: mpc_sqr_def Let_def re [OF a] values_at_def)
        next
          case (Returns zi)
          obtain z i where zi: "zi = (z, i)" by (cases zi)
          show ?thesis
            using general Some Returns zi
            by (simp add: mpc_sqr_def Let_def re [OF a] values_at_Returns case_prod_beta
                sqr_im_values pia)
        qed
      qed
    qed
    from this [of op] this [of r] show ?thesis by simp
  qed
qed

theorem mpc_sqr_alias_witness:
  "MPC_PREC_RE (store_3_2i 0) = MPC_PREC_RE (store_3_2i 1) \<and>
   MPC_PREC_IM (store_3_2i 0) = MPC_PREC_IM (store_3_2i 1) \<and>
   values_at 1 (mpc_sqr widest_env never_round store_3_2i 1 1 (MPFR_RNDN, MPFR_RNDN))
     = Some (Returns ((Fin False 5 0, Fin False 3 2), 0))"
proof -
  have a: "MPC_PREC_RE (store_3_2i 0) = MPC_PREC_RE (store_3_2i 1)"
    and b: "MPC_PREC_IM (store_3_2i 0) = MPC_PREC_IM (store_3_2i 1)"
    by (simp_all add: store_3_2i_def mpc_eval)
  have "values_at 0 (mpc_sqr widest_env never_round store_3_2i 0 1 (MPFR_RNDN, MPFR_RNDN))
     = Some (Returns ((Fin False 5 0, Fin False 3 2), 0))"
    by (simp add: store_3_2i_def values_at_def sqr_eval round_eval mpc_eval)
  with mpc_sqr_alias [OF a b, of widest_env never_round "(MPFR_RNDN, MPFR_RNDN)"]
  show ?thesis using a b by simp
qed

section \<open>The assertion of line 297\<close>

text \<open>
  Claim C10 says that the assertion \<open>mpfr_get_exp (u) != emin\<close> of the positive branch never
  fails.  It does: for \<open>x = 3 * 2^j\<close> and \<open>y = 2^(j+1)\<close> with \<open>j = - 2^61 - 1\<close>, in the widest
  exponent range and with precision 53, the sums \<open>u = 5 * 2^j\<close> and \<open>v = 2^j\<close> are exact and
  positive, their product \<open>5 * 2^(2j)\<close> is exact and has the exponent \<open>2j + 3 = emin\<close>, and the
  call aborts.
\<close>

theorem mpc_sqr_assert_fails:
  "mpc_sqr widest_env cr store_emin_pos 0 1 (MPFR_RNDN, MPFR_RNDN) = Some Aborts"
  by (simp add: store_emin_pos_def sqr_eval round_eval mpc_eval)

end
